theory Spec2Isabelle
  imports Main "HOL-Library.List_Lexorder" "HOL-Library.FSet" "HOL-Library.AList"
begin

section \<open>Errors and results\<close>

text \<open>
  The exceptions that the module \<open>hypernetx/algorithms/homology_mod2.py\<close> raises itself
  (\<open>HyperNetXError\<close>) or lets escape from the primitives it calls (\<open>list.index\<close>,
  indexing, dictionary lookup, \<open>np.max\<close> of an empty list, iteration over \<open>None\<close>,
  \<open>pickle.dump\<close>).
\<close>

datatype error =
    DimensionMismatch    \<comment> \<open>\<open>HyperNetXError\<close> of \<open>logical_dot\<close>, \<open>logical_matmul\<close>, \<open>interpret\<close>\<close>
  | MissingFace          \<comment> \<open>\<open>ValueError\<close> of \<open>km1basis.index(face)\<close> in \<open>bkMatrix\<close>\<close>
  | IndexError           \<comment> \<open>row or column index out of range, \<open>items[0]\<close> of an empty range\<close>
  | KeyError             \<comment> \<open>\<open>bd[k]\<close> for a missing key\<close>
  | ValueError           \<comment> \<open>\<open>np.max\<close> of an empty list, \<open>it.combinations\<close> with negative size\<close>
  | TypeError            \<comment> \<open>iteration over \<open>None\<close>, \<open>logical_xor.reduce\<close> with an integer result\<close>
  | AttributeError       \<comment> \<open>\<open>logdict.update\<close> on an object that is not a dictionary\<close>
  | SerializationFailure \<comment> \<open>\<open>open(log, 'wb')\<close> on a file that cannot be written\<close>

definition bind_e :: "error + 'a \<Rightarrow> ('a \<Rightarrow> error + 'b) \<Rightarrow> error + 'b" where
  "bind_e m f = (case m of Inl e \<Rightarrow> Inl e | Inr v \<Rightarrow> f v)"

fun map_e :: "('a \<Rightarrow> error + 'b) \<Rightarrow> 'a list \<Rightarrow> error + 'b list" where
  "map_e f [] = Inr []"
| "map_e f (x # xs) =
     (case f x of Inl e \<Rightarrow> Inl e
      | Inr y \<Rightarrow> (case map_e f xs of Inl e \<Rightarrow> Inl e | Inr ys \<Rightarrow> Inr (y # ys)))"

fun fold_e :: "('a \<Rightarrow> 's \<Rightarrow> error + 's) \<Rightarrow> 'a list \<Rightarrow> 's \<Rightarrow> error + 's" where
  "fold_e f [] s = Inr s"
| "fold_e f (x # xs) s = (case f x s of Inl e \<Rightarrow> Inl e | Inr s' \<Rightarrow> fold_e f xs s')"

section \<open>Matrices over the two-element field\<close>

text \<open>
  A two-dimensional \<open>numpy\<close> array of integers: its shape and its rows. The shape is kept
  beside the rows because an array with no rows still has a number of columns.
\<close>

record matrix =
  nrows :: nat
  ncols :: nat
  rows :: "int list list"

definition wf_mat :: "matrix \<Rightarrow> bool" where
  "wf_mat M \<longleftrightarrow> length (rows M) = nrows M \<and> list_all (\<lambda>r. length r = ncols M) (rows M)"

definition is01 :: "matrix \<Rightarrow> bool" where
  "is01 M \<longleftrightarrow> list_all (list_all (\<lambda>x. x = 0 \<or> x = 1)) (rows M)"

definition ent :: "matrix \<Rightarrow> nat \<Rightarrow> nat \<Rightarrow> int" where
  "ent M i j = rows M ! i ! j"

definition mk_matrix :: "nat \<Rightarrow> nat \<Rightarrow> (nat \<Rightarrow> nat \<Rightarrow> int) \<Rightarrow> matrix" where
  "mk_matrix m n f =
     \<lparr>nrows = m, ncols = n, rows = map (\<lambda>i. map (\<lambda>j. f i j) [0..<n]) [0..<m]\<rparr>"

text \<open>\<open>np.zeros((m, n), dtype=int)\<close> and \<open>np.eye(n, dtype=int)\<close>.\<close>

definition zeros :: "nat \<Rightarrow> nat \<Rightarrow> matrix" where
  "zeros m n = mk_matrix m n (\<lambda>i j. 0)"

definition eye :: "nat \<Rightarrow> matrix" where
  "eye n = mk_matrix n n (\<lambda>i j. if i = j then 1 else 0)"

text \<open>\<open>M.transpose()\<close>, as a value.\<close>

definition transpose_m :: "matrix \<Rightarrow> matrix" where
  "transpose_m M = mk_matrix (ncols M) (nrows M) (\<lambda>i j. ent M j i)"

text \<open>
  \<open>1 * np.logical_xor(a, b)\<close> and \<open>np.logical_and(a, b)\<close> on integers: an entry counts
  as true when it is not zero.
\<close>

definition lxor :: "int \<Rightarrow> int \<Rightarrow> int" where
  "lxor a b = (if (a \<noteq> 0) \<noteq> (b \<noteq> 0) then 1 else 0)"

definition land :: "int \<Rightarrow> int \<Rightarrow> bool" where
  "land a b \<longleftrightarrow> a \<noteq> 0 \<and> b \<noteq> 0"

subsection \<open>Elementary row and column operations\<close>

text \<open>\<open>_rswap(i, j, S)\<close>: rows \<open>i\<close> and \<open>j\<close> of a copy of \<open>S\<close> exchanged.\<close>

definition rswap :: "nat \<Rightarrow> nat \<Rightarrow> matrix \<Rightarrow> error + matrix" where
  "rswap i j S =
     (if i < nrows S \<and> j < nrows S
      then Inr (S\<lparr>rows := (rows S)[i := rows S ! j, j := rows S ! i]\<rparr>)
      else Inl IndexError)"

text \<open>\<open>_cswap(i, j, S) = _rswap(i, j, S.transpose()).transpose()\<close>.\<close>

definition cswap :: "nat \<Rightarrow> nat \<Rightarrow> matrix \<Rightarrow> error + matrix" where
  "cswap i j S = bind_e (rswap i j (transpose_m S)) (\<lambda>N. Inr (transpose_m N))"

definition swap_rows :: "nat \<Rightarrow> nat \<Rightarrow> matrix list \<Rightarrow> error + matrix list" where
  "swap_rows i j args = map_e (rswap i j) args"

definition swap_columns :: "nat \<Rightarrow> nat \<Rightarrow> matrix list \<Rightarrow> error + matrix list" where
  "swap_columns i j args = map_e (cswap i j) args"

text \<open>\<open>add_to_row(M, i, j)\<close>: row \<open>i\<close> of a copy of \<open>M\<close> replaced by its xor with row \<open>j\<close>.\<close>

definition add_to_row :: "matrix \<Rightarrow> nat \<Rightarrow> nat \<Rightarrow> error + matrix" where
  "add_to_row M i j =
     (if i < nrows M \<and> j < nrows M
      then Inr (M\<lparr>rows := (rows M)[i := map2 lxor (rows M ! i) (rows M ! j)]\<rparr>)
      else Inl IndexError)"

definition add_to_column :: "matrix \<Rightarrow> nat \<Rightarrow> nat \<Rightarrow> error + matrix" where
  "add_to_column M i j = bind_e (add_to_row (transpose_m M) i j) (\<lambda>N. Inr (transpose_m N))"

subsection \<open>Products\<close>

text \<open>
  \<open>logical_dot(ar1, ar2)\<close>: \<open>1 * np.logical_xor.reduce(np.logical_and(ar1, ar2))\<close>, or
  \<open>HyperNetXError\<close> when the lengths differ.
\<close>

definition logical_dot :: "int list \<Rightarrow> int list \<Rightarrow> error + int" where
  "logical_dot ar1 ar2 =
     (if length ar1 \<noteq> length ar2 then Inl DimensionMismatch
      else Inr (if foldl (\<noteq>) False (map2 land ar1 ar2) then 1 else 0))"

text \<open>
  \<open>logical_matmul(mat1, mat2)\<close>: a row of \<open>mat1\<close> without a nonzero entry gives a zero row
  at once; the other rows are multiplied with the columns of \<open>mat2\<close>.
\<close>

definition logical_matmul :: "matrix \<Rightarrow> matrix \<Rightarrow> error + matrix" where
  "logical_matmul mat1 mat2 =
     (if ncols mat1 \<noteq> nrows mat2 then Inl DimensionMismatch
      else bind_e
        (map_e (\<lambda>r. if list_ex (\<lambda>x. x \<noteq> 0) r
                    then map_e (\<lambda>c. logical_dot r c) (rows (transpose_m mat2))
                    else Inr (replicate (ncols mat2) 0))
               (rows mat1))
        (\<lambda>rs. Inr \<lparr>nrows = nrows mat1, ncols = ncols mat2, rows = rs\<rparr>))"

text \<open>
  \<open>matmulreduce(arr, reverse)\<close>: the product of the list from the left, or of the reversed
  list; \<open>items[0]\<close> fails on an empty list.
\<close>

definition matmulreduce :: "matrix list \<Rightarrow> bool \<Rightarrow> error + matrix" where
  "matmulreduce arr reverse =
     (case (if reverse then rev arr else arr) of
        [] \<Rightarrow> Inl IndexError
      | P # ms \<Rightarrow> fold_e (\<lambda>A P. logical_matmul P A) ms P)"

subsection \<open>Convenience methods of the reduction\<close>

text \<open>\<open>_sr\<close>, \<open>_sc\<close>, \<open>_ar\<close>, \<open>_ac\<close>: the same operation on the working matrix and on an
  accumulator.\<close>

definition sr :: "nat \<Rightarrow> nat \<Rightarrow> matrix \<Rightarrow> matrix \<Rightarrow> error + matrix \<times> matrix" where
  "sr i j M L =
     (case swap_rows i j [M, L] of
        Inl e \<Rightarrow> Inl e
      | Inr [M', L'] \<Rightarrow> Inr (M', L')
      | Inr _ \<Rightarrow> Inl ValueError)"

definition sc :: "nat \<Rightarrow> nat \<Rightarrow> matrix \<Rightarrow> matrix \<Rightarrow> error + matrix \<times> matrix" where
  "sc i j M R =
     (case swap_columns i j [M, R] of
        Inl e \<Rightarrow> Inl e
      | Inr [M', R'] \<Rightarrow> Inr (M', R')
      | Inr _ \<Rightarrow> Inl ValueError)"

definition ar :: "nat \<Rightarrow> nat \<Rightarrow> matrix \<Rightarrow> matrix \<Rightarrow> error + matrix \<times> matrix" where
  "ar i j M L =
     bind_e (add_to_row M i j) (\<lambda>M'. bind_e (add_to_row L i j) (\<lambda>L'. Inr (M', L')))"

definition ac :: "nat \<Rightarrow> nat \<Rightarrow> matrix \<Rightarrow> matrix \<Rightarrow> error + matrix \<times> matrix" where
  "ac i j M R =
     bind_e (add_to_column M i j) (\<lambda>M'. bind_e (add_to_column R i j) (\<lambda>R'. Inr (M', R')))"

subsection \<open>Pivot search\<close>

text \<open>
  \<open>_get_next_pivot(M, s1, s2=None)\<close>. The test \<open>if not s2: s2 = s1\<close> replaces the start
  column by \<open>s1\<close> both when \<open>s2\<close> is \<open>None\<close> and when it is \<open>0\<close>. The two nested loops
  return at the first entry that is not zero: columns outside, rows inside.
\<close>

definition get_next_pivot :: "matrix \<Rightarrow> nat \<Rightarrow> nat option \<Rightarrow> (nat \<times> nat) option" where
  "get_next_pivot M s1 s2 =
     (let m = nrows M; n = ncols M;
          s2' = (case s2 of None \<Rightarrow> s1 | Some c \<Rightarrow> if c = 0 then s1 else c)
      in find (\<lambda>(r, c). ent M r c \<noteq> 0)
              (concat (map (\<lambda>c. map (\<lambda>r. (r, c)) [s1..<m]) [s2'..<n])))"

subsection \<open>Smith normal form\<close>

text \<open>The state of the reduction: \<open>L\<close>, \<open>R\<close>, \<open>S\<close>, \<open>Linv\<close>.\<close>

type_synonym snf_state = "matrix \<times> matrix \<times> matrix \<times> matrix"

text \<open>The two inner loops: \<open>for rdx in row_indices\<close> and \<open>for cdx in column_indices\<close>.\<close>

definition snf_add_rows :: "nat \<Rightarrow> nat list \<Rightarrow> snf_state \<Rightarrow> error + snf_state" where
  "snf_add_rows s row_indices st =
     fold_e (\<lambda>rdx (L, R, S, Linv).
               bind_e (ar rdx s S L) (\<lambda>(S', L').
               bind_e (add_to_column Linv s rdx) (\<lambda>Linv'. Inr (L', R, S', Linv'))))
            row_indices st"

definition snf_add_columns :: "nat \<Rightarrow> nat list \<Rightarrow> snf_state \<Rightarrow> error + snf_state" where
  "snf_add_columns s column_indices st =
     fold_e (\<lambda>cdx (L, R, S, Linv).
               bind_e (ac cdx s S R) (\<lambda>(S', R'). Inr (L, R', S', Linv)))
            column_indices st"

text \<open>The body of the loop over \<open>s\<close>, once a pivot \<open>(rdx, cdx)\<close> has been found.\<close>

definition snf_body :: "nat \<Rightarrow> nat \<Rightarrow> nat \<Rightarrow> snf_state \<Rightarrow> error + snf_state" where
  "snf_body s rdx cdx st =
     (case st of (L, R, S, Linv) \<Rightarrow>
        bind_e (if rdx > s
                then bind_e (sr s rdx S L) (\<lambda>(S', L').
                     bind_e (swap_columns rdx s [Linv]) (\<lambda>out.
                       case out of [] \<Rightarrow> Inl IndexError
                       | Linv' # _ \<Rightarrow> Inr (L', R, S', Linv')))
                else Inr (L, R, S, Linv))
        (\<lambda>(L, R, S, Linv).
        bind_e (if cdx > s
                then bind_e (sc s cdx S R) (\<lambda>(S', R'). Inr (L, R', S', Linv))
                else Inr (L, R, S, Linv))
        (\<lambda>(L, R, S, Linv).
        bind_e (snf_add_rows s [idx \<leftarrow> [s + 1..<nrows S]. ent S idx s = 1] (L, R, S, Linv))
        (\<lambda>(L, R, S, Linv).
        snf_add_columns s [jdx \<leftarrow> [s + 1..<ncols S]. ent S s jdx = 1] (L, R, S, Linv)))))"

text \<open>\<open>for s in range(min(dimL, dimR))\<close>, left by \<open>break\<close> when no pivot is found.\<close>

fun snf_loop :: "nat list \<Rightarrow> snf_state \<Rightarrow> error + snf_state" where
  "snf_loop [] st = Inr st"
| "snf_loop (s # ss) st =
     (case st of (L, R, S, Linv) \<Rightarrow>
        (case get_next_pivot S s None of
           None \<Rightarrow> Inr st
         | Some (rdx, cdx) \<Rightarrow> bind_e (snf_body s rdx cdx st) (snf_loop ss)))"

text \<open>\<open>smith_normal_form_mod2(M)\<close> returns \<open>L, R, S, Linv\<close>.\<close>

definition smith_normal_form_mod2 :: "matrix \<Rightarrow> error + snf_state" where
  "smith_normal_form_mod2 M =
     (let S = M; dimL = nrows M; dimR = ncols M;
          L = eye dimL; R = eye dimR; Linv = eye dimL
      in snf_loop [0..<min dimL dimR] (L, R, S, Linv))"

subsection \<open>Reduced row echelon form\<close>

type_synonym rref_state = "matrix \<times> matrix \<times> matrix"

definition rref_add_rows :: "nat \<Rightarrow> nat list \<Rightarrow> rref_state \<Rightarrow> error + rref_state" where
  "rref_add_rows s1 row_indices st =
     fold_e (\<lambda>idx (L, S, Linv).
               bind_e (ar idx s1 S L) (\<lambda>(S', L').
               bind_e (add_to_column Linv s1 idx) (\<lambda>Linv'. Inr (L', S', Linv'))))
            row_indices st"

definition rref_body :: "nat \<Rightarrow> nat \<Rightarrow> nat \<Rightarrow> rref_state \<Rightarrow> error + rref_state" where
  "rref_body s1 rdx cdx st =
     (case st of (L, S, Linv) \<Rightarrow>
        bind_e (if rdx > s1
                then bind_e (sr s1 rdx S L) (\<lambda>(S', L').
                     bind_e (swap_columns rdx s1 [Linv]) (\<lambda>out.
                       case out of [] \<Rightarrow> Inl IndexError
                       | Linv' # _ \<Rightarrow> Inr (L', S', Linv')))
                else Inr (L, S, Linv))
        (\<lambda>(L, S, Linv).
        rref_add_rows s1 [idx \<leftarrow> [0..<nrows S]. idx \<noteq> s1 \<and> ent S idx cdx = 1] (L, S, Linv)))"

text \<open>
  \<open>while s2 <= dimR and s1 <= dimL\<close>: every round without \<open>return\<close> adds one to \<open>s1\<close>.
\<close>

function rref_loop :: "nat \<Rightarrow> nat \<Rightarrow> nat \<Rightarrow> nat \<Rightarrow> rref_state \<Rightarrow> error + rref_state" where
  "rref_loop dimL dimR s1 s2 st =
     (if s2 \<le> dimR \<and> s1 \<le> dimL
      then (case st of (L, S, Linv) \<Rightarrow>
              (case get_next_pivot S s1 (Some s2) of
                 None \<Rightarrow> Inr st
               | Some (rdx, cdx) \<Rightarrow>
                   (case rref_body s1 rdx cdx st of
                      Inl e \<Rightarrow> Inl e
                    | Inr st' \<Rightarrow> rref_loop dimL dimR (s1 + 1) (cdx + 1) st')))
      else Inr st)"
  by pat_completeness auto
termination
  by (relation "measure (\<lambda>(dimL, dimR, s1, s2, st). Suc dimL - s1)") auto

definition reduced_row_echelon_form_mod2 :: "matrix \<Rightarrow> error + rref_state" where
  "reduced_row_echelon_form_mod2 M =
     (let S = M; dimL = nrows M; dimR = ncols M;
          Linv = eye dimL; L = eye dimL
      in rref_loop dimL dimR 0 0 (L, S, Linv))"

section \<open>Chain bases and boundary matrices\<close>

text \<open>
  A hypergraph is read through \<open>h.edges()\<close> only: a sequence of edges, each a finite set of
  vertices (\<open>e.uidset\<close>, with \<open>len(e)\<close> its size). Vertices are sortable. A chain is the
  sorted tuple of its vertices; tuples are compared lexicographically.
\<close>

type_synonym 'a hypergraph = "'a fset list"

type_synonym 'a chain = "'a list"

text \<open>\<open>itertools.combinations(xs, r)\<close>: the subsequences of length \<open>r\<close>, in the order of
  their positions.\<close>

fun combinations :: "'a list \<Rightarrow> nat \<Rightarrow> 'a list list" where
  "combinations xs 0 = [[]]"
| "combinations [] (Suc r) = []"
| "combinations (x # xs) (Suc r) = map ((#) x) (combinations xs r) @ combinations xs (Suc r)"

text \<open>
  \<open>kchainbasis(h, k)\<close>: the loop over the edges fills the set \<open>kchains\<close>, which is returned
  sorted. \<open>it.combinations\<close> refuses a negative size.
\<close>

definition kchainbasis :: "('a::linorder) hypergraph \<Rightarrow> int \<Rightarrow> error + 'a chain list" where
  "kchainbasis h k =
     bind_e
       (fold_e (\<lambda>e kchains.
                  if int (fcard e) = k + 1
                  then Inr (insert (sorted_list_of_fset e) kchains)
                  else if int (fcard e) > k + 1
                  then (if k + 1 < 0 then Inl ValueError
                        else Inr (kchains \<union>
                                  set (combinations (sorted_list_of_fset e) (nat (k + 1)))))
                  else Inr kchains)
               h {})
       (\<lambda>kchains. Inr (sorted_list_of_set kchains))"

text \<open>\<open>interpret(Ck, arr)\<close>: for each vector the cells at the positions holding \<open>1\<close>.\<close>

definition interpret_cells :: "'c list \<Rightarrow> int list list \<Rightarrow> error + 'c list list" where
  "interpret_cells Ck arr =
     map_e (\<lambda>vec. if length Ck \<noteq> length vec then Inl DimensionMismatch
                   else Inr (map (\<lambda>idx. Ck ! idx) [idx \<leftarrow> [0..<length vec]. vec ! idx = 1]))
           arr"

text \<open>\<open>xs.index(x)\<close>: the first position of \<open>x\<close>, if there is one.\<close>

fun index_of :: "'a list \<Rightarrow> 'a \<Rightarrow> nat option" where
  "index_of [] x = None"
| "index_of (y # ys) x = (if y = x then Some 0 else map_option Suc (index_of ys x))"

text \<open>\<open>cell[:idx] + cell[idx + 1:]\<close>.\<close>

definition face :: "'a list \<Rightarrow> nat \<Rightarrow> 'a list" where
  "face cell idx = take idx cell @ drop (idx + 1) cell"

text \<open>\<open>bk[row, col] = v\<close>.\<close>

definition set_entry :: "matrix \<Rightarrow> nat \<Rightarrow> nat \<Rightarrow> int \<Rightarrow> matrix" where
  "set_entry M r c v = M\<lparr>rows := (rows M)[r := (rows M ! r)[c := v]]\<rparr>"

text \<open>
  \<open>bkMatrix(km1basis, kbasis)\<close>: for every cell of \<open>kbasis\<close> and every position of the
  cell, the face without that position is looked up in \<open>km1basis\<close>; \<open>index\<close> raises when
  the face is not there, and the function ends without a matrix.
\<close>

definition bkMatrix :: "'a list list \<Rightarrow> 'a list list \<Rightarrow> error + matrix" where
  "bkMatrix km1basis kbasis =
     fold_e (\<lambda>cell bk.
               fold_e (\<lambda>idx bk.
                         case index_of km1basis (face cell idx) of
                           None \<Rightarrow> Inl MissingFace
                         | Some row \<Rightarrow>
                             (case index_of kbasis cell of
                                None \<Rightarrow> Inl ValueError
                              | Some col \<Rightarrow> Inr (set_entry bk row col 1)))
                      [0..<length cell] bk)
            kbasis (zeros (length km1basis) (length kbasis))"

section \<open>Homology\<close>

text \<open>
  The arrays hold 64-bit integers, and \<open>np.sum\<close> adds them in 64 bits: the sum wraps
  around.
\<close>

definition int64 :: "int \<Rightarrow> int" where
  "int64 x = (x + 2 ^ 63) mod 2 ^ 64 - 2 ^ 63"

definition vsum :: "int list \<Rightarrow> int" where
  "vsum v = int64 (sum_list v)"

definition msum :: "matrix \<Rightarrow> int" where
  "msum M = int64 (sum_list (map sum_list (rows M)))"

text \<open>
  \<open>np.logical_xor.reduce(vs, dtype=int)\<close> for a list of vectors. The list is first made
  an array, which fails when the vectors differ in length. Then a loop of \<open>logical_xor\<close>
  with an integer result is looked for; there is none, the results of \<open>logical_xor\<close> are
  truth values, and the call raises \<open>TypeError\<close>. The comment at the head of \<open>coset\<close>
  says that the function breaks at this call.
\<close>

definition logical_xor_reduce_int :: "int list list \<Rightarrow> error + int list" where
  "logical_xor_reduce_int vs =
     (case vs of
        [] \<Rightarrow> Inl TypeError
      | v # ws \<Rightarrow> if list_all (\<lambda>w. length w = length v) ws then Inl TypeError
                  else Inl ValueError)"

text \<open>
  The rest of a round of the loop over \<open>alpha\<close> in \<open>coset\<close>, once \<open>temp\<close> is there; the
  state is \<open>(coset, sh_len)\<close>.
\<close>

definition coset_step :: "bool \<Rightarrow> int list \<Rightarrow> int list list \<times> int \<Rightarrow> int list list \<times> int" where
  "coset_step shortest temp st =
     (case st of (coset, sh_len) \<Rightarrow>
        if shortest
        then (if vsum temp = sh_len then (coset @ [temp], sh_len)
              else if vsum temp < sh_len then ([temp], vsum temp)
              else (coset, sh_len))
        else (coset @ [temp], sh_len))"

text \<open>
  \<open>coset(im2, bs, shortest)\<close>. The first test returns \<open>None\<close> when the entries of \<open>im2\<close>
  add up to zero. Otherwise the loop runs over every combination \<open>alpha\<close> of the columns
  of \<open>im2\<close>, of which there is at least one, and each round starts with the xor of the
  chosen columns and \<open>bs\<close>.
\<close>

definition coset :: "matrix \<Rightarrow> int list \<Rightarrow> bool \<Rightarrow> error + int list list option" where
  "coset im2 bs shortest =
     (if msum im2 = 0 then Inr None
      else let image_basis = transpose_m im2; dim = nrows image_basis
           in bind_e
                (fold_e
                   (\<lambda>alpha st.
                      bind_e
                        (logical_xor_reduce_int
                           (map (\<lambda>(idx, a). map (\<lambda>x. a * x) (rows image_basis ! idx))
                                (zip [0..<dim] alpha) @ [bs]))
                        (\<lambda>temp. Inr (coset_step shortest temp st)))
                   (product_lists (replicate dim [0, 1]))
                   ([], vsum bs))
                (\<lambda>(coset, sh_len). Inr (Some coset)))"

text \<open>Slices \<open>M[:, a:]\<close>, \<open>M[:, :a]\<close> and \<open>M[a:, :]\<close> with the bound clipped as Python does.\<close>

definition clip :: "int \<Rightarrow> nat \<Rightarrow> nat" where
  "clip a n = (if a < 0 then nat (max 0 (int n + a)) else min (nat a) n)"

definition cols_from :: "matrix \<Rightarrow> int \<Rightarrow> matrix" where
  "cols_from M a = \<lparr>nrows = nrows M, ncols = ncols M - clip a (ncols M),
                    rows = map (drop (clip a (ncols M))) (rows M)\<rparr>"

definition cols_upto :: "matrix \<Rightarrow> int \<Rightarrow> matrix" where
  "cols_upto M a = \<lparr>nrows = nrows M, ncols = clip a (ncols M),
                    rows = map (take (clip a (ncols M))) (rows M)\<rparr>"

definition rows_from :: "matrix \<Rightarrow> int \<Rightarrow> matrix" where
  "rows_from M a = \<lparr>nrows = nrows M - clip a (nrows M), ncols = ncols M,
                    rows = drop (clip a (nrows M)) (rows M)\<rparr>"

subsection \<open>The log\<close>

text \<open>
  The log file is outside the module. What the module sees of it: \<open>pickle.load\<close> gives a
  dictionary, or another object, or fails; \<open>open(log, 'wb')\<close> succeeds or fails. A file
  is read, updated with the new entries, and written back.
\<close>

datatype 'a basis =
    Generators "int list list"
  | Chains "'a chain list list"
  | ShortestChains "'a chain list list list"

datatype logkey = Key_k | Key_betti int | Key_ker | Key_im | Key_proj | Key_basis
  | Key_maxdim | Key_kchains | Key_bd

datatype 'a logval =
    Log_int int
  | Log_matrix matrix
  | Log_vectors "int list list"
  | Log_cosets "int list list option list"
  | Log_basis "'a basis"
  | Log_kchains "(int \<times> 'a chain list) list"
  | Log_bd "(int \<times> matrix) list"

datatype 'a pickled = Unreadable | Pickled_dict "(logkey \<times> 'a logval) list" | Pickled_other

record 'a filesystem =
  content :: "string \<Rightarrow> 'a pickled"
  writable :: "string \<Rightarrow> bool"

text \<open>\<open>logdict.update(entries)\<close> on an association list.\<close>

definition dict_update :: "('k \<times> 'v) list \<Rightarrow> ('k \<times> 'v) list \<Rightarrow> ('k \<times> 'v) list" where
  "dict_update d entries = fold (\<lambda>(k, v) d. AList.update k v d) entries d"

text \<open>
  The block \<open>try: logdict = pickle.load(...) except: logdict = dict()\<close>, then
  \<open>logdict.update(...)\<close> and \<open>pickle.dump(logdict, open(log, 'wb'))\<close>. An object that is
  not a dictionary has no \<open>update\<close>; a file that cannot be opened for writing stays as
  it is. Both failures leave the function.
\<close>

definition write_log ::
  "string \<Rightarrow> (logkey \<times> 'a logval) list \<Rightarrow> 'a filesystem \<Rightarrow> (error + unit) \<times> 'a filesystem" where
  "write_log log entries fs =
     (case (case content fs log of
              Unreadable \<Rightarrow> Some []
            | Pickled_dict d \<Rightarrow> Some d
            | Pickled_other \<Rightarrow> None) of
        None \<Rightarrow> (Inl AttributeError, fs)
      | Some logdict \<Rightarrow>
          if writable fs log
          then (Inr (), fs\<lparr>content := (content fs)(log := Pickled_dict (dict_update logdict entries))\<rparr>)
          else (Inl SerializationFailure, fs))"

text \<open>\<open>if log:\<close> holds for a string that is not empty.\<close>

definition log_enabled :: "string option \<Rightarrow> bool" where
  "log_enabled log \<longleftrightarrow> (case log of None \<Rightarrow> False | Some p \<Rightarrow> p \<noteq> [])"

subsection \<open>The basis of a homology group\<close>

text \<open>\<open>if C:\<close> holds for a list that is not empty.\<close>

definition given :: "'c list option \<Rightarrow> bool" where
  "given C \<longleftrightarrow> (case C of None \<Rightarrow> False | Some cs \<Rightarrow> cs \<noteq> [])"

text \<open>\<open>interpret(C, sb)\<close> for a result \<open>sb\<close> of \<open>coset\<close>: \<open>None\<close> cannot be iterated.\<close>

definition interpret_coset :: "'c list \<Rightarrow> int list list option \<Rightarrow> error + 'c list list" where
  "interpret_coset C sb = (case sb of None \<Rightarrow> Inl TypeError | Some vs \<Rightarrow> interpret_cells C vs)"

text \<open>The list \<open>shortest_basis\<close>: \<open>coset(im2, bs=bs, shortest=True)\<close> for every row of \<open>proj\<close>.\<close>

definition shortest_basis :: "matrix \<Rightarrow> int list list \<Rightarrow> error + int list list option list" where
  "shortest_basis im2 proj = map_e (\<lambda>bs. coset im2 bs True) proj"

text \<open>
  What \<open>homology_basis\<close> computes before it looks at \<open>log\<close>: the returned \<open>basis\<close> and the
  entries for the log.
\<close>

definition homology_basis_core ::
  "(int \<Rightarrow> matrix option) \<Rightarrow> int \<Rightarrow> 'a chain list option \<Rightarrow> bool
     \<Rightarrow> error + 'a basis \<times> (logkey \<times> 'a logval) list" where
  "homology_basis_core bd k C shortest =
     (case bd k of None \<Rightarrow> Inl KeyError | Some bdk \<Rightarrow>
      bind_e (smith_normal_form_mod2 bdk) (\<lambda>(L1, R1, S1, L1inv).
      case bd (k + 1) of None \<Rightarrow> Inl KeyError | Some bdk1 \<Rightarrow>
      bind_e (smith_normal_form_mod2 bdk1) (\<lambda>(L2, R2, S2, L2inv).
      let rank1 = msum S1; rank2 = msum S2;
          betti1 = int (ncols S1) - rank1 - rank2;
          ker1 = cols_from R1 rank1;
          im2 = cols_upto L2inv rank2;
          cokernel2 = cols_from L2inv rank2;
          cokproj2 = rows_from L2 rank2
      in bind_e (matmulreduce [cokernel2, cokproj2, ker1] False) (\<lambda>P.
         bind_e (reduced_row_echelon_form_mod2 (transpose_m P)) (\<lambda>(_, proj, _).
         let proj = filter (list_ex (\<lambda>x. x \<noteq> 0)) (rows proj)
         in bind_e
              (if shortest
               then bind_e (shortest_basis im2 proj) (\<lambda>sb.
                    bind_e (if given C
                            then bind_e (map_e (interpret_coset (the C)) sb)
                                   (\<lambda>b. Inr (ShortestChains b))
                            else Inr (ShortestChains []))
                      (\<lambda>basis. Inr (basis, Log_cosets sb)))
               else bind_e (if given C
                            then bind_e (interpret_cells (the C) proj) (\<lambda>b. Inr (Chains b))
                            else Inr (Generators proj))
                      (\<lambda>basis. Inr (basis, Log_vectors proj)))
              (\<lambda>(basis, logproj).
                 Inr (basis,
                      [(Key_k, Log_int k), (Key_betti k, Log_int betti1),
                       (Key_ker, Log_matrix ker1), (Key_im, Log_matrix im2),
                       (Key_proj, logproj), (Key_basis, Log_basis basis)])))))))"

text \<open>\<open>homology_basis(bd, k, C, shortest, log)\<close>, with the file system it may write to.\<close>

definition homology_basis ::
  "(int \<Rightarrow> matrix option) \<Rightarrow> int \<Rightarrow> 'a chain list option \<Rightarrow> bool \<Rightarrow> string option
     \<Rightarrow> 'a filesystem \<Rightarrow> (error + 'a basis) \<times> 'a filesystem" where
  "homology_basis bd k C shortest log fs =
     (case homology_basis_core bd k C shortest of
        Inl e \<Rightarrow> (Inl e, fs)
      | Inr (basis, entries) \<Rightarrow>
          if log_enabled log
          then (case write_log (the log) entries fs of
                  (Inl e, fs') \<Rightarrow> (Inl e, fs')
                | (Inr _, fs') \<Rightarrow> (Inr basis, fs'))
          else (Inr basis, fs))"

subsection \<open>The homology of a hypergraph\<close>

text \<open>What \<open>hypergraph_homology_basis\<close> returns: the string \<open>'wrong dim'\<close> or a basis.\<close>

datatype 'a answer = Message string | Homology "'a basis"

text \<open>\<open>np.max(xs)\<close> raises on an empty list.\<close>

definition np_max :: "int list \<Rightarrow> error + int" where
  "np_max xs = (case xs of [] \<Rightarrow> Inl ValueError | x # ys \<Rightarrow> Inr (fold max ys x))"

definition hypergraph_homology_basis ::
  "('a::linorder) hypergraph \<Rightarrow> int \<Rightarrow> bool \<Rightarrow> string option \<Rightarrow> 'a filesystem
     \<Rightarrow> (error + 'a answer) \<times> 'a filesystem" where
  "hypergraph_homology_basis h k shortest log fs =
     (case np_max (map (\<lambda>e. int (fcard e)) h) of
        Inl e \<Rightarrow> (Inl e, fs)
      | Inr mx \<Rightarrow>
          let max_dim = mx - 1
          in if k > max_dim \<or> k < 1 then (Inr (Message ''wrong dim''), fs)
             else
               (case bind_e (kchainbasis h (k - 1)) (\<lambda>Ckm1.
                     bind_e (kchainbasis h k) (\<lambda>Ck.
                     bind_e (kchainbasis h (k + 1)) (\<lambda>Ckp1.
                     bind_e (bkMatrix Ckm1 Ck) (\<lambda>bdk.
                     bind_e (bkMatrix Ck Ckp1) (\<lambda>bdk1.
                       Inr (Ckm1, Ck, Ckp1, bdk, bdk1)))))) of
                  Inl e \<Rightarrow> (Inl e, fs)
                | Inr (Ckm1, Ck, Ckp1, bdk, bdk1) \<Rightarrow>
                    (case (if log_enabled log
                           then write_log (the log)
                                  [(Key_maxdim, Log_int max_dim),
                                   (Key_kchains,
                                      Log_kchains [(k - 1, Ckm1), (k, Ck), (k + 1, Ckp1)]),
                                   (Key_bd, Log_bd [(k, bdk), (k + 1, bdk1)])]
                                  fs
                           else (Inr (), fs)) of
                       (Inl e, fs') \<Rightarrow> (Inl e, fs')
                     | (Inr _, fs') \<Rightarrow>
                         (case homology_basis (Map.empty(k \<mapsto> bdk, k + 1 \<mapsto> bdk1)) k
                                 (Some Ck) shortest log fs' of
                            (Inl e, fs'') \<Rightarrow> (Inl e, fs'')
                          | (Inr basis, fs'') \<Rightarrow> (Inr (Homology basis), fs'')))))"

section \<open>Notions used in the statements\<close>

text \<open>The body of the inner loop of \<open>bkMatrix\<close>, for one cell.\<close>

definition bk_cell_step ::
  "'a list list \<Rightarrow> 'a list list \<Rightarrow> 'a list \<Rightarrow> nat \<Rightarrow> matrix \<Rightarrow> error + matrix" where
  "bk_cell_step km1basis kbasis cell =
     (\<lambda>idx bk.
        case index_of km1basis (face cell idx) of
          None \<Rightarrow> Inl MissingFace
        | Some row \<Rightarrow>
            (case index_of kbasis cell of
               None \<Rightarrow> Inl ValueError
             | Some col \<Rightarrow> Inr (set_entry bk row col 1)))"

text \<open>The largest dimension of a simplex: the largest size of an edge, minus one.\<close>

definition max_simplex_dim :: "'a hypergraph \<Rightarrow> int" where
  "max_simplex_dim h = Max (set (map (\<lambda>e. int (fcard e)) h)) - 1"

text \<open>Concrete inputs: two file systems, the hypergraph with the single edge \<open>{1, 2, 3}\<close>,
  and the boundary matrices of the hollow triangle with the edges \<open>{1, 2}\<close>, \<open>{1, 3}\<close>,
  \<open>{2, 3}\<close>.\<close>

definition fs_empty :: "int filesystem" where
  "fs_empty = \<lparr>content = (\<lambda>p. Unreadable), writable = (\<lambda>p. True)\<rparr>"


definition triangle :: "int hypergraph" where
  "triangle = [{|1, 2, 3|}]"


text \<open>The exchange of two indices.\<close>

definition swp :: "nat \<Rightarrow> nat \<Rightarrow> nat \<Rightarrow> nat" where
  "swp i j a = (if a = i then j else if a = j then i else a)"

section \<open>The elementary operations on stored arrays\<close>

text \<open>
  Arrays are objects: a buffer in a store, seen directly or transposed. \<open>copy.deepcopy\<close>
  allocates a new buffer; \<open>transpose()\<close> gives a second view of the same buffer; an
  assignment \<open>N[i] = v\<close> writes into the buffer that \<open>N\<close> views. The functions below are
  \<open>_rswap\<close>, \<open>_cswap\<close>, \<open>swap_rows\<close>, \<open>swap_columns\<close>, \<open>add_to_row\<close> and \<open>add_to_column\<close>
  statement by statement; they return the new array (or the error) and the new store.
\<close>

type_synonym store = "matrix list"

record ndarray =
  buf :: nat
  transposed :: bool

definition view :: "store \<Rightarrow> ndarray \<Rightarrow> matrix" where
  "view \<sigma> a = (if transposed a then transpose_m (\<sigma> ! buf a) else \<sigma> ! buf a)"

definition deepcopy_st :: "ndarray \<Rightarrow> store \<Rightarrow> ndarray \<times> store" where
  "deepcopy_st a \<sigma> = (\<lparr>buf = length \<sigma>, transposed = False\<rparr>, \<sigma> @ [view \<sigma> a])"

definition transpose_st :: "ndarray \<Rightarrow> ndarray" where
  "transpose_st a = a\<lparr>transposed := \<not> transposed a\<rparr>"

definition set_row_st :: "ndarray \<Rightarrow> nat \<Rightarrow> int list \<Rightarrow> store \<Rightarrow> store" where
  "set_row_st a i v \<sigma> =
     (let V = view \<sigma> a; V' = V\<lparr>rows := (rows V)[i := v]\<rparr>
      in \<sigma>[buf a := (if transposed a then transpose_m V' else V')])"

definition rswap_st :: "nat \<Rightarrow> nat \<Rightarrow> ndarray \<Rightarrow> store \<Rightarrow> (error + ndarray) \<times> store" where
  "rswap_st i j S \<sigma> =
     (case deepcopy_st S \<sigma> of (N, \<sigma>1) \<Rightarrow>
        if \<not> i < nrows (view \<sigma>1 N) then (Inl IndexError, \<sigma>1)
        else let row = rows (view \<sigma>1 N) ! i
             in if \<not> j < nrows (view \<sigma>1 N) then (Inl IndexError, \<sigma>1)
                else let \<sigma>2 = set_row_st N i (rows (view \<sigma>1 N) ! j) \<sigma>1;
                         \<sigma>3 = set_row_st N j row \<sigma>2
                     in (Inr N, \<sigma>3))"

definition cswap_st :: "nat \<Rightarrow> nat \<Rightarrow> ndarray \<Rightarrow> store \<Rightarrow> (error + ndarray) \<times> store" where
  "cswap_st i j S \<sigma> =
     (case rswap_st i j (transpose_st S) \<sigma> of
        (Inl e, \<sigma>') \<Rightarrow> (Inl e, \<sigma>')
      | (Inr N, \<sigma>') \<Rightarrow> (Inr (transpose_st N), \<sigma>'))"

fun map_st :: "(ndarray \<Rightarrow> store \<Rightarrow> (error + ndarray) \<times> store) \<Rightarrow> ndarray list \<Rightarrow> store
                 \<Rightarrow> (error + ndarray list) \<times> store" where
  "map_st f [] \<sigma> = (Inr [], \<sigma>)"
| "map_st f (M # Ms) \<sigma> =
     (case f M \<sigma> of
        (Inl e, \<sigma>') \<Rightarrow> (Inl e, \<sigma>')
      | (Inr N, \<sigma>') \<Rightarrow>
          (case map_st f Ms \<sigma>' of
             (Inl e, \<sigma>'') \<Rightarrow> (Inl e, \<sigma>'')
           | (Inr Ns, \<sigma>'') \<Rightarrow> (Inr (N # Ns), \<sigma>'')))"

definition swap_rows_st :: "nat \<Rightarrow> nat \<Rightarrow> ndarray list \<Rightarrow> store \<Rightarrow> (error + ndarray list) \<times> store" where
  "swap_rows_st i j args \<sigma> = map_st (rswap_st i j) args \<sigma>"

definition swap_columns_st :: "nat \<Rightarrow> nat \<Rightarrow> ndarray list \<Rightarrow> store \<Rightarrow> (error + ndarray list) \<times> store" where
  "swap_columns_st i j args \<sigma> = map_st (cswap_st i j) args \<sigma>"

definition add_to_row_st :: "ndarray \<Rightarrow> nat \<Rightarrow> nat \<Rightarrow> store \<Rightarrow> (error + ndarray) \<times> store" where
  "add_to_row_st M i j \<sigma> =
     (case deepcopy_st M \<sigma> of (N, \<sigma>1) \<Rightarrow>
        if \<not> (i < nrows (view \<sigma>1 N) \<and> j < nrows (view \<sigma>1 N)) then (Inl IndexError, \<sigma>1)
        else (Inr N, set_row_st N i (map2 lxor (rows (view \<sigma>1 N) ! i) (rows (view \<sigma>1 N) ! j)) \<sigma>1))"

definition add_to_column_st :: "ndarray \<Rightarrow> nat \<Rightarrow> nat \<Rightarrow> store \<Rightarrow> (error + ndarray) \<times> store" where
  "add_to_column_st M i j \<sigma> =
     (case add_to_row_st (transpose_st M) i j \<sigma> of
        (Inl e, \<sigma>') \<Rightarrow> (Inl e, \<sigma>')
      | (Inr N, \<sigma>') \<Rightarrow> (Inr (transpose_st N), \<sigma>'))"

definition pure_op :: "store \<Rightarrow> (error + ndarray) \<times> store \<Rightarrow> error + matrix \<Rightarrow> bool" where
  "pure_op \<sigma> out spec \<longleftrightarrow>
     (case out of (r, \<sigma>') \<Rightarrow>
        take (length \<sigma>) \<sigma>' = \<sigma> \<and> list_all wf_mat \<sigma>' \<and>
        (case r of Inl e \<Rightarrow> spec = Inl e
         | Inr N \<Rightarrow> length \<sigma> \<le> buf N \<and> buf N < length \<sigma>' \<and> spec = Inr (view \<sigma>' N)))"

definition pure_ops :: "store \<Rightarrow> (error + ndarray list) \<times> store \<Rightarrow> error + matrix list \<Rightarrow> bool" where
  "pure_ops \<sigma> out spec \<longleftrightarrow>
     (case out of (r, \<sigma>') \<Rightarrow>
        take (length \<sigma>) \<sigma>' = \<sigma> \<and> list_all wf_mat \<sigma>' \<and>
        (case r of Inl e \<Rightarrow> spec = Inl e
         | Inr Ns \<Rightarrow> list_all (\<lambda>N. length \<sigma> \<le> buf N \<and> buf N < length \<sigma>') Ns \<and>
                     spec = Inr (map (view \<sigma>') Ns)))"

definition unchanged :: "store \<Rightarrow> ndarray list \<Rightarrow> store \<Rightarrow> bool" where
  "unchanged \<sigma> inputs \<sigma>' \<longleftrightarrow> take (length \<sigma>) \<sigma>' = \<sigma> \<and> map (view \<sigma>') inputs = map (view \<sigma>) inputs"

definition store2 :: store where
  "store2 = [\<lparr>nrows = 2, ncols = 2, rows = [[1, 0], [1, 1]]\<rparr>, \<lparr>nrows = 2, ncols = 3, rows = [[1, 0, 1], [0, 1, 1]]\<rparr>]"

section \<open>Notions used in the proofs\<close>

text \<open>
  An entry counts as true when it is not zero. \<open>gdot\<close> is the parity of the number of
  positions where both vectors are true, \<open>mmul\<close> the product of two matrices over the
  two-element field, entry by entry; \<open>rsw\<close>, \<open>csw\<close>, \<open>radd\<close> and \<open>cadd\<close> are the
  elementary operations as values.
\<close>

definition tb :: "int \<Rightarrow> int" where
  "tb x = (if x \<noteq> 0 then 1 else 0)"

definition gdot :: "nat \<Rightarrow> (nat \<Rightarrow> int) \<Rightarrow> (nat \<Rightarrow> int) \<Rightarrow> int" where
  "gdot n f g = (\<Sum>k<n. tb (f k) * tb (g k)) mod 2"

definition mmul :: "matrix \<Rightarrow> matrix \<Rightarrow> matrix" where
  "mmul A B = mk_matrix (nrows A) (ncols B) (\<lambda>i j. gdot (ncols A) (ent A i) (\<lambda>k. ent B k j))"

definition rsw :: "nat \<Rightarrow> nat \<Rightarrow> matrix \<Rightarrow> matrix" where
  "rsw i j M = mk_matrix (nrows M) (ncols M) (\<lambda>a b. ent M (swp i j a) b)"

definition csw :: "nat \<Rightarrow> nat \<Rightarrow> matrix \<Rightarrow> matrix" where
  "csw i j M = mk_matrix (nrows M) (ncols M) (\<lambda>a b. ent M a (swp i j b))"

definition radd :: "nat \<Rightarrow> nat \<Rightarrow> matrix \<Rightarrow> matrix" where
  "radd i j M = mk_matrix (nrows M) (ncols M)
     (\<lambda>a b. if a = i then lxor (ent M i b) (ent M j b) else ent M a b)"

definition cadd :: "nat \<Rightarrow> nat \<Rightarrow> matrix \<Rightarrow> matrix" where
  "cadd i j M = mk_matrix (nrows M) (ncols M)
     (\<lambda>a b. if b = i then lxor (ent M a i) (ent M a j) else ent M a b)"

definition bin :: "matrix \<Rightarrow> bool" where
  "bin M \<longleftrightarrow> (\<forall>i<nrows M. \<forall>j<ncols M. ent M i j = 0 \<or> ent M i j = 1)"

definition start_col :: "nat \<Rightarrow> nat option \<Rightarrow> nat" where
  "start_col s1 s2 = (case s2 of None \<Rightarrow> s1 | Some c \<Rightarrow> if c = 0 then s1 else c)"

text \<open>
  What the loop of \<open>smith_normal_form_mod2\<close> keeps: the four matrices have their shapes
  and entries in \<open>{0, 1}\<close>, \<open>L M R = S\<close>, \<open>L Linv = I\<close>, and \<open>R\<close> has a left inverse;
  after \<open>s\<close> rounds the rows and columns below \<open>s\<close> of \<open>S\<close> are those of the identity.
\<close>

definition alg_inv :: "matrix \<Rightarrow> snf_state \<Rightarrow> bool" where
  "alg_inv M st \<longleftrightarrow>
     (case st of (L, R, S, Linv) \<Rightarrow>
        wf_mat L \<and> wf_mat R \<and> wf_mat S \<and> wf_mat Linv \<and>
        nrows L = nrows M \<and> ncols L = nrows M \<and> nrows R = ncols M \<and> ncols R = ncols M \<and>
        nrows S = nrows M \<and> ncols S = ncols M \<and> nrows Linv = nrows M \<and> ncols Linv = nrows M \<and>
        bin L \<and> bin R \<and> bin S \<and> bin Linv \<and>
        mmul (mmul L M) R = S \<and> mmul L Linv = eye (nrows M) \<and>
        (\<exists>Rinv. wf_mat Rinv \<and> nrows Rinv = ncols M \<and> ncols Rinv = ncols M \<and> bin Rinv \<and>
                mmul Rinv R = eye (ncols M)))"

definition diag_upto :: "nat \<Rightarrow> matrix \<Rightarrow> bool" where
  "diag_upto s S \<longleftrightarrow>
     (\<forall>i<nrows S. \<forall>j<ncols S. i < s \<or> j < s \<longrightarrow> ent S i j = (if i = j then 1 else 0))"

text \<open>
  The rank of a matrix over the two-element field is the dimension of its row space: the
  row space has \<open>2 ^ rank\<close> vectors.
\<close>

definition lincomb :: "int list \<Rightarrow> matrix \<Rightarrow> int list" where
  "lincomb c M = map (\<lambda>j. (\<Sum>i<nrows M. c ! i * ent M i j) mod 2) [0..<ncols M]"

definition gf2_vectors :: "nat \<Rightarrow> int list set" where
  "gf2_vectors n = {v. set v \<subseteq> {0, 1} \<and> length v = n}"

definition row_space :: "matrix \<Rightarrow> int list set" where
  "row_space M = (\<lambda>c. lincomb c M) ` gf2_vectors (nrows M)"

definition rank_gf2 :: "matrix \<Rightarrow> nat" where
  "rank_gf2 M = (THE r. card (row_space M) = 2 ^ r)"

text \<open>A diagonal matrix, and the number of ones on its diagonal.\<close>

definition is_diagonal :: "matrix \<Rightarrow> bool" where
  "is_diagonal S \<longleftrightarrow>
     list_all (\<lambda>i. list_all (\<lambda>j. i = j \<or> ent S i j = 0) [0..<ncols S]) [0..<nrows S]"

definition diag_ones :: "matrix \<Rightarrow> nat" where
  "diag_ones S = length [i \<leftarrow> [0..<min (nrows S) (ncols S)]. ent S i i = 1]"

definition m3 :: matrix where
  "m3 = \<lparr>nrows = 3, ncols = 3, rows = [[1, 1, 0], [1, 0, 1], [0, 1, 1]]\<rparr>"

text \<open>
  The pivot of a row is its first entry that is not zero. A matrix is in reduced row
  echelon form when every pivot is the only entry of its column that is not zero, and
  every row above a row with a pivot has its pivot further left (so rows without a pivot
  come last).
\<close>

definition pivot_col :: "matrix \<Rightarrow> nat \<Rightarrow> nat option" where
  "pivot_col S i = find (\<lambda>j. ent S i j \<noteq> 0) [0..<ncols S]"

definition is_rref :: "matrix \<Rightarrow> bool" where
  "is_rref S \<longleftrightarrow>
     list_all
       (\<lambda>i. case pivot_col S i of
              None \<Rightarrow> True
            | Some p \<Rightarrow>
                list_all (\<lambda>i'. i' = i \<or> ent S i' p = 0) [0..<nrows S] \<and>
                list_all (\<lambda>i'. case pivot_col S i' of None \<Rightarrow> False | Some p' \<Rightarrow> p' < p) [0..<i])
       [0..<nrows S]"

text \<open>
  What the loop of \<open>reduced_row_echelon_form_mod2\<close> keeps, with \<open>ps\<close> the columns of the
  pivots found so far.
\<close>

definition rref_inv :: "nat \<Rightarrow> nat \<Rightarrow> nat list \<Rightarrow> matrix \<Rightarrow> bool" where
  "rref_inv s1 s2 ps S \<longleftrightarrow>
     s1 \<le> nrows S \<and> s2 \<le> ncols S \<and> (s2 = 0 \<longrightarrow> s1 = 0) \<and> length ps = s1 \<and>
     (\<forall>i<s1. ps ! i < s2 \<and> ent S i (ps ! i) = 1 \<and> (\<forall>j<ps ! i. ent S i j = 0) \<and>
              (\<forall>i'<nrows S. i' \<noteq> i \<longrightarrow> ent S i' (ps ! i) = 0)) \<and>
     (\<forall>i i'. i < i' \<and> i' < s1 \<longrightarrow> ps ! i < ps ! i') \<and>
     (\<forall>i j. s1 \<le> i \<and> i < nrows S \<and> j < s2 \<longrightarrow> ent S i j = 0)"

text \<open>
  The set that \<open>kchainbasis\<close> collects for chains of \<open>n\<close> vertices, and the matrix that
  \<open>bkMatrix\<close> fills when no face is missing: the entry is one where the row's chain
  is a face of the column's chain.
\<close>

definition chains :: "('a::linorder) hypergraph \<Rightarrow> nat \<Rightarrow> 'a chain set" where
  "chains h n = (\<Union>e\<in>set h. set (combinations (sorted_list_of_fset e) n))"

definition boundary_matrix :: "'a list list \<Rightarrow> 'a list list \<Rightarrow> matrix" where
  "boundary_matrix km1basis kbasis =
     mk_matrix (length km1basis) (length kbasis)
       (\<lambda>a b. if \<exists>idx<length (kbasis ! b). face (kbasis ! b) idx = km1basis ! a then 1 else 0)"

section \<open>Properties\<close>

subsection \<open>Sequencing\<close>

lemma fold_e_all_or_error:
  assumes "\<And>x s. x \<in> set xs \<Longrightarrow>
             (bad x \<longrightarrow> f x s = Inl e) \<and> (\<not> bad x \<longrightarrow> (\<exists>s'. f x s = Inr s'))"
  shows "(if \<exists>x\<in>set xs. bad x then fold_e f xs s = Inl e else \<exists>s'. fold_e f xs s = Inr s')"
  using assms
proof (induction xs arbitrary: s)
  case Nil
  then show ?case by simp
next
  case (Cons x xs)
  show ?case
  proof (cases "bad x")
    case True
    then show ?thesis using Cons.prems[of x s] by simp
  next
    case False
    then obtain s' where s': "f x s = Inr s'" using Cons.prems[of x s] by auto
    have "(if \<exists>x\<in>set xs. bad x then fold_e f xs s' = Inl e else \<exists>s''. fold_e f xs s' = Inr s'')"
      by (rule Cons.IH) (use Cons.prems in auto)
    then show ?thesis using False s' by simp
  qed
qed

lemma map_e_const:
  "(\<And>x. x \<in> set xs \<Longrightarrow> f x = Inr c) \<Longrightarrow> map_e f xs = Inr (replicate (length xs) c)"
  by (induction xs) auto

subsection \<open>Matrices by their entries\<close>

lemma nrows_mk_matrix [simp]: "nrows (mk_matrix m n f) = m"
  and ncols_mk_matrix [simp]: "ncols (mk_matrix m n f) = n"
  by (simp_all add: mk_matrix_def)

lemma wf_mk_matrix [simp]: "wf_mat (mk_matrix m n f)"
  by (simp add: wf_mat_def mk_matrix_def list_all_iff)

lemma ent_mk_matrix [simp]: "i < m \<Longrightarrow> j < n \<Longrightarrow> ent (mk_matrix m n f) i j = f i j"
  by (simp add: ent_def mk_matrix_def)

lemma wf_mat_row_length: "wf_mat M \<Longrightarrow> i < nrows M \<Longrightarrow> length (rows M ! i) = ncols M"
  by (simp add: wf_mat_def list_all_length)

lemma wf_mat_length_rows: "wf_mat M \<Longrightarrow> length (rows M) = nrows M"
  by (simp add: wf_mat_def)

lemma mk_matrix_ent: "wf_mat M \<Longrightarrow> mk_matrix (nrows M) (ncols M) (ent M) = M"
proof -
  assume wf: "wf_mat M"
  have "map (\<lambda>i. map (\<lambda>j. rows M ! i ! j) [0..<ncols M]) [0..<nrows M] = rows M"
  proof (rule nth_equalityI)
    show "length (map (\<lambda>i. map (\<lambda>j. rows M ! i ! j) [0..<ncols M]) [0..<nrows M]) = length (rows M)"
      using wf by (simp add: wf_mat_def)
  next
    fix i assume "i < length (map (\<lambda>i. map (\<lambda>j. rows M ! i ! j) [0..<ncols M]) [0..<nrows M])"
    then have i: "i < nrows M" by simp
    have "map (\<lambda>j. rows M ! i ! j) [0..<ncols M] = rows M ! i"
      using wf_mat_row_length[OF wf i] by (intro nth_equalityI) auto
    then show "map (\<lambda>i. map (\<lambda>j. rows M ! i ! j) [0..<ncols M]) [0..<nrows M] ! i = rows M ! i"
      using i by simp
  qed
  then show ?thesis by (simp add: mk_matrix_def ent_def)
qed

lemma mk_matrix_cong:
  "(\<And>i j. i < m \<Longrightarrow> j < n \<Longrightarrow> f i j = g i j) \<Longrightarrow> mk_matrix m n f = mk_matrix m n g"
  by (simp add: mk_matrix_def)

lemma mat_eqI:
  assumes "wf_mat A" "wf_mat B" "nrows A = nrows B" "ncols A = ncols B"
    and "\<And>i j. i < nrows A \<Longrightarrow> j < ncols A \<Longrightarrow> ent A i j = ent B i j"
  shows "A = B"
proof -
  have "mk_matrix (nrows A) (ncols A) (ent A) = mk_matrix (nrows B) (ncols B) (ent B)"
    using assms(3,4,5) by (simp add: mk_matrix_def)
  then show ?thesis using assms(1,2) by (simp add: mk_matrix_ent)
qed

lemma transpose_transpose: "wf_mat M \<Longrightarrow> transpose_m (transpose_m M) = M"
  by (rule mat_eqI) (simp_all add: transpose_m_def)

lemma wf_transpose [simp]: "wf_mat (transpose_m M)"
  by (simp add: transpose_m_def)

lemma dims_transpose [simp]: "nrows (transpose_m M) = ncols M" "ncols (transpose_m M) = nrows M"
  by (simp_all add: transpose_m_def)

lemma ent_transpose [simp]: "i < ncols M \<Longrightarrow> j < nrows M \<Longrightarrow> ent (transpose_m M) i j = ent M j i"
  by (simp add: transpose_m_def)

lemma rswap_mk:
  assumes "wf_mat S" "i < nrows S" "j < nrows S"
  shows "rswap i j S = Inr (mk_matrix (nrows S) (ncols S) (\<lambda>a b. ent S (swp i j a) b))"
proof -
  let ?N = "S\<lparr>rows := (rows S)[i := rows S ! j, j := rows S ! i]\<rparr>"
  have wfN: "wf_mat ?N"
    using assms by (auto simp: wf_mat_def list_all_length nth_list_update)
  have e: "ent ?N a b = ent S (swp i j a) b" if "a < nrows S" "b < ncols S" for a b
    using assms that by (auto simp: ent_def swp_def nth_list_update wf_mat_def)
  have "?N = mk_matrix (nrows S) (ncols S) (\<lambda>a b. ent S (swp i j a) b)"
    by (intro mat_eqI) (use wfN e in simp_all)
  then show ?thesis using assms by (simp add: rswap_def)
qed

lemma cswap_mk:
  assumes "wf_mat S" "i < ncols S" "j < ncols S"
  shows "cswap i j S = Inr (mk_matrix (nrows S) (ncols S) (\<lambda>a b. ent S a (swp i j b)))"
proof -
  have "rswap i j (transpose_m S) = Inr (mk_matrix (ncols S) (nrows S) (\<lambda>a b. ent (transpose_m S) (swp i j a) b))"
    using rswap_mk[of "transpose_m S" i j] assms by simp
  moreover have "transpose_m (mk_matrix (ncols S) (nrows S) (\<lambda>a b. ent (transpose_m S) (swp i j a) b))
       = mk_matrix (nrows S) (ncols S) (\<lambda>a b. ent S a (swp i j b))"
    using assms by (intro mat_eqI) (auto simp: transpose_m_def swp_def)
  ultimately show ?thesis by (simp add: cswap_def bind_e_def)
qed

lemma add_to_row_mk:
  assumes "wf_mat M" "i < nrows M" "j < nrows M"
  shows "add_to_row M i j = Inr (mk_matrix (nrows M) (ncols M)
            (\<lambda>a b. if a = i then lxor (ent M i b) (ent M j b) else ent M a b))"
proof -
  let ?N = "M\<lparr>rows := (rows M)[i := map2 lxor (rows M ! i) (rows M ! j)]\<rparr>"
  have wfN: "wf_mat ?N"
    using assms by (auto simp: wf_mat_def list_all_length nth_list_update)
  have e: "ent ?N a b = (if a = i then lxor (ent M i b) (ent M j b) else ent M a b)"
    if "a < nrows M" "b < ncols M" for a b
    using assms that by (auto simp: ent_def nth_list_update wf_mat_def list_all_length)
  have "?N = mk_matrix (nrows M) (ncols M) (\<lambda>a b. if a = i then lxor (ent M i b) (ent M j b) else ent M a b)"
    by (intro mat_eqI) (use wfN e in simp_all)
  then show ?thesis using assms by (simp add: add_to_row_def)
qed

lemma add_to_column_mk:
  assumes "wf_mat M" "i < ncols M" "j < ncols M"
  shows "add_to_column M i j = Inr (mk_matrix (nrows M) (ncols M)
            (\<lambda>a b. if b = i then lxor (ent M a i) (ent M a j) else ent M a b))"
proof -
  have "add_to_row (transpose_m M) i j = Inr (mk_matrix (ncols M) (nrows M)
          (\<lambda>a b. if a = i then lxor (ent (transpose_m M) i b) (ent (transpose_m M) j b) else ent (transpose_m M) a b))"
    using add_to_row_mk[of "transpose_m M" i j] assms by simp
  moreover have "transpose_m (mk_matrix (ncols M) (nrows M)
          (\<lambda>a b. if a = i then lxor (ent (transpose_m M) i b) (ent (transpose_m M) j b) else ent (transpose_m M) a b))
     = mk_matrix (nrows M) (ncols M) (\<lambda>a b. if b = i then lxor (ent M a i) (ent M a j) else ent M a b)"
    using assms by (intro mat_eqI) (auto simp: transpose_m_def)
  ultimately show ?thesis by (simp add: add_to_column_def bind_e_def)
qed

section \<open>The pivot search with start column zero\<close>

text \<open>
  C6. The claim: for every matrix and every pair of start indices, also \<open>s2 = 0\<close> with
  \<open>s1 > 0\<close>, the search scans the columns from \<open>s2\<close> upward and reports no pivot exactly
  when the submatrix \<open>M[s1:, s2:]\<close> is zero. The code at \<open>s1 = 1\<close>, \<open>s2 = 0\<close> on the
  matrix with the rows \<open>[0, 0]\<close> and \<open>[1, 0]\<close>: it reports no pivot although the entry at
  row 1, column 0 of the submatrix is 1, because \<open>if not s2\<close> takes the start column 0 for a
  missing one and starts at column \<open>s1 = 1\<close>.
\<close>

theorem get_next_pivot_start_column_zero:
  "get_next_pivot \<lparr>nrows = 2, ncols = 2, rows = [[0, 0], [1, 0]]\<rparr> 1 (Some 0) = None \<and>
   ent \<lparr>nrows = 2, ncols = 2, rows = [[0, 0], [1, 0]]\<rparr> 1 0 = 1"
  by (simp add: get_next_pivot_def ent_def upt_conv_Cons)

section \<open>Missing faces\<close>

lemma index_of_None_iff: "index_of xs x = None \<longleftrightarrow> x \<notin> set xs"
  by (induction xs) auto

lemma index_of_Some_iff: "index_of xs x = Some i \<Longrightarrow> i < length xs \<and> xs ! i = x"
  by (induction xs arbitrary: i) (auto split: if_splits)

lemma bkMatrix_alt:
  "bkMatrix km1basis kbasis =
     fold_e (\<lambda>cell bk. fold_e (bk_cell_step km1basis kbasis cell) [0..<length cell] bk)
       kbasis (zeros (length km1basis) (length kbasis))"
  unfolding bkMatrix_def bk_cell_step_def ..

lemma bk_cell_fold:
  assumes "cell \<in> set kbasis"
  shows "(if \<exists>idx\<in>set idxs. face cell idx \<notin> set km1basis
          then fold_e (bk_cell_step km1basis kbasis cell) idxs bk = Inl MissingFace
          else \<exists>bk'. fold_e (bk_cell_step km1basis kbasis cell) idxs bk = Inr bk')"
proof (rule fold_e_all_or_error)
  fix x s
  obtain col where "index_of kbasis cell = Some col"
    using assms index_of_None_iff[of kbasis cell] by (cases "index_of kbasis cell") auto
  then show "(face cell x \<notin> set km1basis \<longrightarrow>
                bk_cell_step km1basis kbasis cell x s = Inl MissingFace) \<and>
             (\<not> face cell x \<notin> set km1basis \<longrightarrow>
                (\<exists>s'. bk_cell_step km1basis kbasis cell x s = Inr s'))"
    using index_of_None_iff[of km1basis "face cell x"]
    by (cases "index_of km1basis (face cell x)") (auto simp: bk_cell_step_def)
qed

text \<open>
  C7. When a face of a cell of \<open>kbasis\<close> (the cell without one of its positions) is not in
  \<open>km1basis\<close>, \<open>bkMatrix\<close> ends with the error of the failed lookup and returns no matrix.
\<close>

theorem bkMatrix_missing_face:
  assumes "cell \<in> set kbasis" and "idx < length cell" and "face cell idx \<notin> set km1basis"
  shows "bkMatrix km1basis kbasis = Inl MissingFace"
proof -
  let ?bad = "\<lambda>c. \<exists>i\<in>set [0..<length c]. face c i \<notin> set km1basis"
  let ?f = "\<lambda>cell bk. fold_e (bk_cell_step km1basis kbasis cell) [0..<length cell] bk"
  let ?z = "zeros (length km1basis) (length kbasis)"
  have "(if \<exists>c\<in>set kbasis. ?bad c then fold_e ?f kbasis ?z = Inl MissingFace
         else \<exists>s'. fold_e ?f kbasis ?z = Inr s')"
  proof (rule fold_e_all_or_error)
    fix x s assume "x \<in> set kbasis"
    from bk_cell_fold[OF this, of "[0..<length x]" km1basis s]
    show "(?bad x \<longrightarrow> ?f x s = Inl MissingFace) \<and> (\<not> ?bad x \<longrightarrow> (\<exists>s'. ?f x s = Inr s'))"
      by (auto split: if_splits)
  qed
  moreover have "\<exists>c\<in>set kbasis. ?bad c"
    using assms by (intro bexI[of _ cell] bexI[of _ idx]) auto
  ultimately show ?thesis unfolding bkMatrix_alt by simp
qed

theorem bkMatrix_missing_face_witness:
  "bkMatrix [[1::nat], [2]] [[1, 3]] = Inl MissingFace"
  using bkMatrix_missing_face[of "[1::nat, 3]" "[[1, 3]]" 0 "[[1], [2]]"]
  by (simp add: face_def)

section \<open>Cosets of a zero image\<close>

lemma msum_zero:
  assumes "list_all (list_all (\<lambda>x. x = 0)) (rows im2)"
  shows "msum im2 = 0"
proof -
  have r: "list_all (\<lambda>x. x = 0) r \<Longrightarrow> sum_list r = 0" for r :: "int list"
    by (induction r) auto
  have "list_all (list_all (\<lambda>x. x = 0)) rs \<Longrightarrow> sum_list (map sum_list rs) = 0"
    for rs :: "int list list"
    by (induction rs) (auto simp: r)
  with assms show ?thesis by (simp add: msum_def int64_def)
qed

text \<open>
  C10. When every entry of \<open>im2\<close> is zero (so also when \<open>im2\<close> has no column), \<open>coset\<close>
  returns \<open>None\<close> whatever \<open>bs\<close> and \<open>shortest\<close> are, and the list \<open>shortest_basis\<close> of the
  search for shortest representatives holds \<open>None\<close> for every row of \<open>proj\<close>.
\<close>

theorem coset_all_zero_None:
  assumes "list_all (list_all (\<lambda>x. x = 0)) (rows im2)"
  shows "coset im2 bs shortest = Inr None \<and>
         shortest_basis im2 proj = Inr (replicate (length proj) None)"
proof -
  have c: "coset im2 b s = Inr None" for b s
    using msum_zero[OF assms] by (simp add: coset_def)
  show ?thesis
    unfolding shortest_basis_def
    using c map_e_const[of proj "\<lambda>bs. coset im2 bs True" None] by simp
qed

theorem coset_all_zero_None_witness:
  "coset \<lparr>nrows = 3, ncols = 0, rows = [[], [], []]\<rparr> [1, 1, 1] True = Inr None \<and>
   shortest_basis \<lparr>nrows = 3, ncols = 0, rows = [[], [], []]\<rparr> [[1, 1, 1]] = Inr [None]"
  using coset_all_zero_None[of "\<lparr>nrows = 3, ncols = 0, rows = [[], [], []]\<rparr>"
      "[1, 1, 1]" True "[[1, 1, 1]]"]
  by simp

section \<open>The requested dimension\<close>

lemma np_max_Max: "np_max xs = (if xs = [] then Inl ValueError else Inr (Max (set xs)))"
proof (cases xs)
  case Nil
  then show ?thesis by (simp add: np_max_def)
next
  case (Cons a list)
  then show ?thesis using Max.set_eq_fold[of a list] by (simp add: np_max_def)
qed

text \<open>
  C4, as the code has it. For a hypergraph with at least one edge and a dimension \<open>k\<close>
  below 1 or above the largest dimension of a simplex, \<open>hypergraph_homology_basis\<close>
  returns the string \<open>'wrong dim'\<close> at once: no basis is computed and no log is written.
\<close>

theorem hypergraph_homology_basis_wrong_dim:
  assumes "h \<noteq> []" and "k < 1 \<or> k > max_simplex_dim h"
  shows "hypergraph_homology_basis h k shortest log fs = (Inr (Message ''wrong dim''), fs)"
proof -
  have "np_max (map (\<lambda>e. int (fcard e)) h) = Inr (max_simplex_dim h + 1)"
    using assms(1) by (simp add: np_max_Max max_simplex_dim_def)
  then show ?thesis using assms(2) by (auto simp: hypergraph_homology_basis_def)
qed

theorem hypergraph_homology_basis_wrong_dim_witness:
  "triangle \<noteq> [] \<and> (3 < (1::int) \<or> 3 > max_simplex_dim triangle) \<and>
   hypergraph_homology_basis triangle 3 False None fs_empty
     = (Inr (Message ''wrong dim''), fs_empty)"
proof -
  have a: "triangle \<noteq> []" by (simp add: triangle_def)
  have b: "3 < (1::int) \<or> 3 > max_simplex_dim triangle"
    by (simp add: max_simplex_dim_def triangle_def) code_simp
  show ?thesis
    using a b hypergraph_homology_basis_wrong_dim[OF a b, of False None fs_empty] by blast
qed

text \<open>
  The claim as stated, for every hypergraph, fails on the hypergraph without edges: with
  \<open>k = 0 < 1\<close> the call ends in the error of \<open>np.max\<close> on an empty list, before the
  dimension is looked at.
\<close>

theorem hypergraph_homology_basis_no_edges:
  "fst (hypergraph_homology_basis ([] :: int hypergraph) 0 False None fs_empty) = Inl ValueError"
  by (simp add: hypergraph_homology_basis_def np_max_def)

section \<open>The hypergraph with the single edge \<open>{1, 2, 3}\<close>\<close>

text \<open>
  C3, as the code has it. The chain bases of dimension 0 and 1 and the boundary matrix
  of dimension 1, of rank 2, are those of the claim. The edge itself is a chain of
  dimension 2, so the second boundary matrix is the column of three ones, of rank 1; the
  Betti number written to the log is \<open>3 - 2 - 1 = 0\<close> and the returned basis is empty.
\<close>

theorem triangle_homology:
  "kchainbasis triangle 0 = Inr [[1], [2], [3]] \<and>
   kchainbasis triangle 1 = Inr [[1, 2], [1, 3], [2, 3]] \<and>
   kchainbasis triangle 2 = Inr [[1, 2, 3]] \<and>
   bkMatrix [[1], [2], [3]] [[1, 2], [1, 3], [2, 3 :: int]]
     = Inr \<lparr>nrows = 3, ncols = 3, rows = [[1, 1, 0], [1, 0, 1], [0, 1, 1]]\<rparr> \<and>
   bkMatrix [[1, 2], [1, 3], [2, 3]] [[1, 2, 3 :: int]]
     = Inr \<lparr>nrows = 3, ncols = 1, rows = [[1], [1], [1]]\<rparr> \<and>
   map_sum id (\<lambda>(L, R, S, Linv). msum S)
     (smith_normal_form_mod2 \<lparr>nrows = 3, ncols = 3, rows = [[1, 1, 0], [1, 0, 1], [0, 1, 1]]\<rparr>)
     = Inr 2 \<and>
   map_sum id (\<lambda>(L, R, S, Linv). msum S)
     (smith_normal_form_mod2 \<lparr>nrows = 3, ncols = 1, rows = [[1], [1], [1]]\<rparr>)
     = Inr 1 \<and>
   map_sum id (\<lambda>(basis, entries). map_of entries (Key_betti 1))
     (homology_basis_core
        (Map.empty(1 \<mapsto> \<lparr>nrows = 3, ncols = 3, rows = [[1, 1, 0], [1, 0, 1], [0, 1, 1]]\<rparr>,
                   2 \<mapsto> \<lparr>nrows = 3, ncols = 1, rows = [[1], [1], [1]]\<rparr>))
        1 (Some [[1, 2], [1, 3], [2, 3 :: int]]) False)
     = Inr (Some (Log_int 0)) \<and>
   fst (hypergraph_homology_basis triangle 1 False None fs_empty) = Inr (Homology (Chains []))"
  by code_simp

text \<open>The claim as stated fails: the call does not return the generator that selects the
  three chains of dimension 1.\<close>

theorem triangle_not_one_generator:
  "fst (hypergraph_homology_basis triangle 1 False None fs_empty)
     \<noteq> Inr (Homology (Chains [[[1, 2], [1, 3], [2, 3]]]))"
  by code_simp

section \<open>The log\<close>




section \<open>The elementary operations leave their inputs alone\<close>

lemma view_transpose_st:
  "wf_mat (\<sigma> ! buf a) \<Longrightarrow> view \<sigma> (transpose_st a) = transpose_m (view \<sigma> a)"
  by (simp add: view_def transpose_st_def transpose_transpose)

lemma take_eq_nth: "take (length \<sigma>) \<sigma>' = \<sigma> \<Longrightarrow> a < length \<sigma> \<Longrightarrow> \<sigma>' ! a = \<sigma> ! a"
  by (metis nth_take)

lemma take_eq_length: "take (length \<sigma>) \<sigma>' = \<sigma> \<Longrightarrow> length \<sigma> \<le> length \<sigma>'"
proof -
  assume "take (length \<sigma>) \<sigma>' = \<sigma>"
  then have "length (take (length \<sigma>) \<sigma>') = length \<sigma>" by simp
  then show ?thesis by (simp only: length_take)
qed

lemma take_eq_view:
  "take (length \<sigma>) \<sigma>' = \<sigma> \<Longrightarrow> buf M < length \<sigma> \<Longrightarrow> view \<sigma>' M = view \<sigma> M"
  by (simp add: view_def take_eq_nth)

lemma wf_view: "list_all wf_mat \<sigma> \<Longrightarrow> buf M < length \<sigma> \<Longrightarrow> wf_mat (view \<sigma> M)"
  by (simp add: view_def list_all_length)

lemma rswap_st_pure:
  assumes "list_all wf_mat \<sigma>" "buf S < length \<sigma>"
  shows "pure_op \<sigma> (rswap_st i j S \<sigma>) (rswap i j (view \<sigma> S))"
proof -
  let ?V = "view \<sigma> S"
  have wf: "wf_mat ?V" using assms by (rule wf_view)
  show ?thesis
  proof (cases "i < nrows ?V \<and> j < nrows ?V")
    case False
    then show ?thesis using assms wf
      by (auto simp: pure_op_def rswap_st_def deepcopy_st_def Let_def view_def rswap_def)
  next
    case True
    have "wf_mat (?V\<lparr>rows := (rows ?V)[i := rows ?V ! j, j := rows ?V ! i]\<rparr>)"
      using wf True by (auto simp: wf_mat_def list_all_length nth_list_update)
    then show ?thesis using assms True
      by (auto simp: pure_op_def rswap_st_def deepcopy_st_def Let_def set_row_st_def view_def
          rswap_def nth_append)
  qed
qed

lemma add_to_row_st_pure:
  assumes "list_all wf_mat \<sigma>" "buf M < length \<sigma>"
  shows "pure_op \<sigma> (add_to_row_st M i j \<sigma>) (add_to_row (view \<sigma> M) i j)"
proof -
  let ?V = "view \<sigma> M"
  have wf: "wf_mat ?V" using assms by (rule wf_view)
  show ?thesis
  proof (cases "i < nrows ?V \<and> j < nrows ?V")
    case False
    then show ?thesis using assms wf
      by (auto simp: pure_op_def add_to_row_st_def deepcopy_st_def Let_def view_def add_to_row_def)
  next
    case True
    have "wf_mat (?V\<lparr>rows := (rows ?V)[i := map2 lxor (rows ?V ! i) (rows ?V ! j)]\<rparr>)"
      using wf True by (auto simp: wf_mat_def list_all_length nth_list_update)
    then show ?thesis using assms True
      by (auto simp: pure_op_def add_to_row_st_def deepcopy_st_def Let_def set_row_st_def view_def
          add_to_row_def nth_append)
  qed
qed

lemma transposed_pure:
  assumes f: "pure_op \<sigma> (f (transpose_st M) \<sigma>) (g (transpose_m (view \<sigma> M)))"
  shows "pure_op \<sigma> (case f (transpose_st M) \<sigma> of
                       (Inl e, \<sigma>') \<Rightarrow> (Inl e, \<sigma>')
                     | (Inr N, \<sigma>') \<Rightarrow> (Inr (transpose_st N), \<sigma>'))
                   (bind_e (g (transpose_m (view \<sigma> M))) (\<lambda>N. Inr (transpose_m N)))"
proof -
  obtain r \<sigma>' where o: "f (transpose_st M) \<sigma> = (r, \<sigma>')" by (cases "f (transpose_st M) \<sigma>")
  show ?thesis
  proof (cases r)
    case (Inl e)
    then show ?thesis using f o by (simp add: pure_op_def bind_e_def)
  next
    case (Inr N)
    then have "wf_mat (\<sigma>' ! buf N)" using f o by (simp add: pure_op_def list_all_length)
    then show ?thesis using f o Inr
      by (simp add: pure_op_def bind_e_def view_transpose_st) (simp add: transpose_st_def)
  qed
qed

lemma cswap_st_pure:
  assumes "list_all wf_mat \<sigma>" "buf S < length \<sigma>"
  shows "pure_op \<sigma> (cswap_st i j S \<sigma>) (cswap i j (view \<sigma> S))"
proof -
  have b: "buf (transpose_st S) < length \<sigma>" using assms by (simp add: transpose_st_def)
  have "wf_mat (\<sigma> ! buf S)" using assms by (simp add: list_all_length)
  then have "pure_op \<sigma> (rswap_st i j (transpose_st S) \<sigma>) (rswap i j (transpose_m (view \<sigma> S)))"
    using rswap_st_pure[OF assms(1) b, of i j] by (simp add: view_transpose_st)
  from transposed_pure[of \<sigma> "rswap_st i j" S "rswap i j", OF this]
  show ?thesis by (simp add: cswap_st_def cswap_def)
qed

lemma add_to_column_st_pure:
  assumes "list_all wf_mat \<sigma>" "buf M < length \<sigma>"
  shows "pure_op \<sigma> (add_to_column_st M i j \<sigma>) (add_to_column (view \<sigma> M) i j)"
proof -
  have b: "buf (transpose_st M) < length \<sigma>" using assms by (simp add: transpose_st_def)
  have "wf_mat (\<sigma> ! buf M)" using assms by (simp add: list_all_length)
  then have "pure_op \<sigma> (add_to_row_st (transpose_st M) i j \<sigma>) (add_to_row (transpose_m (view \<sigma> M)) i j)"
    using add_to_row_st_pure[OF assms(1) b, of i j] by (simp add: view_transpose_st)
  from transposed_pure[of \<sigma> "\<lambda>N. add_to_row_st N i j" M "\<lambda>N. add_to_row N i j", OF this]
  show ?thesis by (simp add: add_to_column_st_def add_to_column_def)
qed

lemma map_st_pure:
  assumes f: "\<And>M \<sigma>. list_all wf_mat \<sigma> \<Longrightarrow> buf M < length \<sigma> \<Longrightarrow> pure_op \<sigma> (f M \<sigma>) (g (view \<sigma> M))"
  shows "list_all wf_mat \<sigma> \<Longrightarrow> list_all (\<lambda>M. buf M < length \<sigma>) args \<Longrightarrow>
         pure_ops \<sigma> (map_st f args \<sigma>) (map_e g (map (view \<sigma>) args))"
proof (induction args arbitrary: \<sigma>)
  case Nil
  then show ?case by (simp add: pure_ops_def)
next
  case (Cons M Ms)
  obtain r \<sigma>1 where o: "f M \<sigma> = (r, \<sigma>1)" by (cases "f M \<sigma>")
  have p: "pure_op \<sigma> (r, \<sigma>1) (g (view \<sigma> M))" using f[of \<sigma> M] Cons.prems o by simp
  show ?case
  proof (cases r)
    case (Inl e)
    then show ?thesis using p o by (simp add: pure_op_def pure_ops_def)
  next
    case (Inr N)
    have t1: "take (length \<sigma>) \<sigma>1 = \<sigma>" and wf1: "list_all wf_mat \<sigma>1"
      and N: "length \<sigma> \<le> buf N" "buf N < length \<sigma>1" and gN: "g (view \<sigma> M) = Inr (view \<sigma>1 N)"
      using p Inr by (simp_all add: pure_op_def)
    have len: "length \<sigma> \<le> length \<sigma>1" using t1 by (rule take_eq_length)
    have valid1: "list_all (\<lambda>M. buf M < length \<sigma>1) Ms"
      using Cons.prems(2) len by (auto simp: list_all_iff)
    have views: "map (view \<sigma>1) Ms = map (view \<sigma>) Ms"
      using Cons.prems(2) t1 by (auto simp: list_all_iff take_eq_view)
    have IH: "pure_ops \<sigma>1 (map_st f Ms \<sigma>1) (map_e g (map (view \<sigma>) Ms))"
      using Cons.IH[OF wf1 valid1] views by simp
    obtain rs \<sigma>2 where o2: "map_st f Ms \<sigma>1 = (rs, \<sigma>2)" by (cases "map_st f Ms \<sigma>1")
    have t2: "take (length \<sigma>1) \<sigma>2 = \<sigma>1" and wf2: "list_all wf_mat \<sigma>2"
      using IH o2 by (simp_all add: pure_ops_def)
    have t: "take (length \<sigma>) \<sigma>2 = \<sigma>"
      using t1 t2 len by (metis min.absorb1 take_take)
    have vN: "view \<sigma>2 N = view \<sigma>1 N" by (rule take_eq_view[OF t2 N(2)])
    have len2: "length \<sigma>1 \<le> length \<sigma>2" using t2 by (rule take_eq_length)
    show ?thesis
    proof (cases rs)
      case (Inl e)
      then show ?thesis using IH o o2 Inr gN t wf2 by (simp add: pure_ops_def)
    next
      case (Inr Ns)
      then show ?thesis using IH o o2 \<open>r = Inr N\<close> gN t wf2 vN N len len2
        by (auto simp: pure_ops_def list_all_iff)
    qed
  qed
qed

text \<open>
  C8. In a store of arrays, \<open>swap_rows\<close>, \<open>swap_columns\<close>, \<open>add_to_row\<close> and
  \<open>add_to_column\<close> leave every buffer that existed before the call as it was, so every
  input holds the entries it held before; the arrays they return live in buffers
  allocated during the call, and hold what the operation computes.
\<close>

theorem elementary_operations_leave_inputs:
  assumes "list_all wf_mat \<sigma>" and "list_all (\<lambda>M. buf M < length \<sigma>) args" and "buf M < length \<sigma>"
  shows "pure_ops \<sigma> (swap_rows_st i j args \<sigma>) (swap_rows i j (map (view \<sigma>) args)) \<and>
         unchanged \<sigma> args (snd (swap_rows_st i j args \<sigma>)) \<and>
         pure_ops \<sigma> (swap_columns_st i j args \<sigma>) (swap_columns i j (map (view \<sigma>) args)) \<and>
         unchanged \<sigma> args (snd (swap_columns_st i j args \<sigma>)) \<and>
         pure_op \<sigma> (add_to_row_st M i j \<sigma>) (add_to_row (view \<sigma> M) i j) \<and>
         unchanged \<sigma> [M] (snd (add_to_row_st M i j \<sigma>)) \<and>
         pure_op \<sigma> (add_to_column_st M i j \<sigma>) (add_to_column (view \<sigma> M) i j) \<and>
         unchanged \<sigma> [M] (snd (add_to_column_st M i j \<sigma>))"
proof -
  have u: "unchanged \<sigma> inputs \<sigma>'"
    if "take (length \<sigma>) \<sigma>' = \<sigma>" "list_all (\<lambda>M. buf M < length \<sigma>) inputs" for inputs \<sigma>'
    using that by (auto simp: unchanged_def list_all_iff take_eq_view)
  have 1: "pure_ops \<sigma> (swap_rows_st i j args \<sigma>) (swap_rows i j (map (view \<sigma>) args))"
    unfolding swap_rows_st_def swap_rows_def
    by (rule map_st_pure[OF rswap_st_pure assms(1,2)])
  have 2: "pure_ops \<sigma> (swap_columns_st i j args \<sigma>) (swap_columns i j (map (view \<sigma>) args))"
    unfolding swap_columns_st_def swap_columns_def
    by (rule map_st_pure[OF cswap_st_pure assms(1,2)])
  have 3: "pure_op \<sigma> (add_to_row_st M i j \<sigma>) (add_to_row (view \<sigma> M) i j)"
    by (rule add_to_row_st_pure[OF assms(1,3)])
  have 4: "pure_op \<sigma> (add_to_column_st M i j \<sigma>) (add_to_column (view \<sigma> M) i j)"
    by (rule add_to_column_st_pure[OF assms(1,3)])
  have "unchanged \<sigma> args (snd (swap_rows_st i j args \<sigma>))"
    using 1 assms(2) by (intro u) (auto simp: pure_ops_def split: prod.splits)
  moreover have "unchanged \<sigma> args (snd (swap_columns_st i j args \<sigma>))"
    using 2 assms(2) by (intro u) (auto simp: pure_ops_def split: prod.splits)
  moreover have "unchanged \<sigma> [M] (snd (add_to_row_st M i j \<sigma>))"
    using 3 assms(3) by (intro u) (auto simp: pure_op_def split: prod.splits)
  moreover have "unchanged \<sigma> [M] (snd (add_to_column_st M i j \<sigma>))"
    using 4 assms(3) by (intro u) (auto simp: pure_op_def split: prod.splits)
  ultimately show ?thesis using 1 2 3 4 by blast
qed

theorem elementary_operations_leave_inputs_witness:
  "list_all wf_mat store2 \<and>
   list_all (\<lambda>M. buf M < length store2) [\<lparr>buf = 0, transposed = False\<rparr>, \<lparr>buf = 1, transposed = True\<rparr>] \<and>
   buf \<lparr>buf = 1, transposed = True\<rparr> < length store2 \<and>
   unchanged store2 [\<lparr>buf = 0, transposed = False\<rparr>, \<lparr>buf = 1, transposed = True\<rparr>]
     (snd (swap_rows_st 0 1 [\<lparr>buf = 0, transposed = False\<rparr>, \<lparr>buf = 1, transposed = True\<rparr>] store2)) \<and>
   unchanged store2 [\<lparr>buf = 1, transposed = True\<rparr>]
     (snd (add_to_column_st \<lparr>buf = 1, transposed = True\<rparr> 0 1 store2))"
proof -
  have a: "list_all wf_mat store2" by (simp add: store2_def wf_mat_def)
  have b: "list_all (\<lambda>M. buf M < length store2)
             [\<lparr>buf = 0, transposed = False\<rparr>, \<lparr>buf = 1, transposed = True\<rparr>]"
    by (simp add: store2_def)
  have c: "buf \<lparr>buf = 1, transposed = True\<rparr> < length store2" by (simp add: store2_def)
  show ?thesis
    using a b c elementary_operations_leave_inputs[OF a b c, of 0 1] by blast
qed

section \<open>The Smith normal form\<close>

lemma foldl_xor: "foldl (\<noteq>) acc bs = (acc \<noteq> odd (length (filter id bs)))"
  by (induction bs arbitrary: acc) auto

lemma gdot_bounds: "gdot n f g = 0 \<or> gdot n f g = 1"
  unfolding gdot_def by presburger

lemma tb_01 [simp]: "x = 0 \<or> x = 1 \<Longrightarrow> tb x = x"
  by (auto simp: tb_def)

lemma tb_lxor: "tb (lxor a b) = (tb a + tb b) mod 2"
  by (auto simp: tb_def lxor_def)

lemma lxor_tb: "lxor a b = (tb a + tb b) mod 2"
  by (auto simp: tb_def lxor_def)

lemma length_filter_sum:
  "int (length (filter id (map2 land a b))) = (\<Sum>k<min (length a) (length b). tb (a ! k) * tb (b ! k))"
proof (induction a arbitrary: b)
  case Nil
  then show ?case by simp
next
  case (Cons x xs)
  show ?case
  proof (cases b)
    case Nil
    then show ?thesis by simp
  next
    case (Cons y ys)
    have "(\<Sum>k<Suc (min (length xs) (length ys)). tb ((x # xs) ! k) * tb ((y # ys) ! k))
        = tb x * tb y + (\<Sum>k<min (length xs) (length ys). tb (xs ! k) * tb (ys ! k))"
      by (simp only: sum.lessThan_Suc_shift) simp
    then show ?thesis using Cons Cons.IH[of ys] by (auto simp: land_def tb_def)
  qed
qed

lemma logical_dot_gdot:
  assumes "length a = n" "length b = n"
  shows "logical_dot a b = Inr (gdot n (\<lambda>k. a ! k) (\<lambda>k. b ! k))"
proof -
  have "odd (length (filter id (map2 land a b))) \<longleftrightarrow> odd (\<Sum>k<n. tb (a ! k) * tb (b ! k))"
    using length_filter_sum[of a b] assms by (metis even_of_nat min.idem)
  moreover have "foldl (\<noteq>) False (map2 land a b) = odd (length (filter id (map2 land a b)))"
    by (subst foldl_xor) simp
  ultimately have "foldl (\<noteq>) False (map2 land a b) = odd (\<Sum>k<n. tb (a ! k) * tb (b ! k))"
    by simp
  then have "logical_dot a b = Inr (if odd (\<Sum>k<n. tb (a ! k) * tb (b ! k)) then 1 else 0)"
    using assms by (simp only: logical_dot_def if_False simp_thms)
  then show ?thesis by (simp add: gdot_def odd_iff_mod_2_eq_one)
qed

lemma map_e_Inr: "(\<And>x. x \<in> set xs \<Longrightarrow> f x = Inr (g x)) \<Longrightarrow> map_e f xs = Inr (map g xs)"
  by (induction xs) auto

lemma gdot_zero_left: "(\<And>k. k < n \<Longrightarrow> f k = 0) \<Longrightarrow> gdot n f g = 0"
  by (simp add: gdot_def tb_def)

lemma ent_row: "ent A i = (!) (rows A ! i)"
  by (rule ext) (simp add: ent_def)

lemma logical_matmul_mmul:
  assumes "wf_mat A" "wf_mat B" "ncols A = nrows B"
  shows "logical_matmul A B = Inr (mmul A B)"
proof -
  let ?n = "ncols A"
  let ?row = "\<lambda>r. map (\<lambda>j. gdot ?n (\<lambda>k. r ! k) (\<lambda>k. ent B k j)) [0..<ncols B]"
  have col: "rows (transpose_m B) = map (\<lambda>j. map (\<lambda>i. ent B i j) [0..<nrows B]) [0..<ncols B]"
    by (simp add: transpose_m_def mk_matrix_def)
  have each: "(if list_ex (\<lambda>x. x \<noteq> 0) r
                then map_e (\<lambda>c. logical_dot r c) (rows (transpose_m B))
                else Inr (replicate (ncols B) 0)) = Inr (?row r)"
    if r: "r \<in> set (rows A)" for r
  proof -
    have len: "length r = ?n" using assms(1) r by (auto simp: wf_mat_def list_all_iff)
    show ?thesis
    proof (cases "list_ex (\<lambda>x. x \<noteq> 0) r")
      case True
      have "map_e (\<lambda>c. logical_dot r c) (rows (transpose_m B))
            = Inr (map (\<lambda>c. gdot ?n (\<lambda>k. r ! k) (\<lambda>k. c ! k)) (rows (transpose_m B)))"
        by (rule map_e_Inr) (use len assms(3) in \<open>auto simp: col intro!: logical_dot_gdot\<close>)
      also have "map (\<lambda>c. gdot ?n (\<lambda>k. r ! k) (\<lambda>k. c ! k)) (rows (transpose_m B)) = ?row r"
        using assms(3) by (auto simp: col gdot_def)
      finally show ?thesis using True by simp
    next
      case False
      then have z: "\<And>k. k < ?n \<Longrightarrow> r ! k = 0" using len by (auto simp: list_ex_iff)
      have "?row r = replicate (ncols B) 0"
        by (auto simp: gdot_zero_left[OF z] map_replicate_const)
      then show ?thesis using False by simp
    qed
  qed
  have "map_e (\<lambda>r. if list_ex (\<lambda>x. x \<noteq> 0) r
                then map_e (\<lambda>c. logical_dot r c) (rows (transpose_m B))
                else Inr (replicate (ncols B) 0)) (rows A) = Inr (map ?row (rows A))"
    by (rule map_e_Inr) (rule each)
  moreover have "map ?row (rows A) = rows (mmul A B)"
  proof (rule nth_equalityI)
    show "length (map ?row (rows A)) = length (rows (mmul A B))"
      using assms(1) by (simp add: wf_mat_def mmul_def mk_matrix_def)
  next
    fix i assume "i < length (map ?row (rows A))"
    then have "i < nrows A" using assms(1) by (simp add: wf_mat_def)
    then show "map ?row (rows A) ! i = rows (mmul A B) ! i"
      using assms(1) ent_row by (simp add: wf_mat_def mmul_def mk_matrix_def ent_def)
  qed
  ultimately show ?thesis using assms(3)
    by (simp add: logical_matmul_def bind_e_def mmul_def mk_matrix_def)
qed

lemma is01_bin: "wf_mat M \<Longrightarrow> is01 M \<longleftrightarrow> bin M"
  unfolding is01_def bin_def wf_mat_def ent_def list_all_length by (auto; metis)

lemma rswap_rsw: "wf_mat S \<Longrightarrow> i < nrows S \<Longrightarrow> j < nrows S \<Longrightarrow> rswap i j S = Inr (rsw i j S)"
  by (simp add: rswap_mk rsw_def)

lemma cswap_csw: "wf_mat S \<Longrightarrow> i < ncols S \<Longrightarrow> j < ncols S \<Longrightarrow> cswap i j S = Inr (csw i j S)"
  by (simp add: cswap_mk csw_def)

lemma add_to_row_radd:
  "wf_mat M \<Longrightarrow> i < nrows M \<Longrightarrow> j < nrows M \<Longrightarrow> add_to_row M i j = Inr (radd i j M)"
  by (simp add: add_to_row_mk radd_def)

lemma add_to_column_cadd:
  "wf_mat M \<Longrightarrow> i < ncols M \<Longrightarrow> j < ncols M \<Longrightarrow> add_to_column M i j = Inr (cadd i j M)"
  by (simp add: add_to_column_mk cadd_def)

lemma dims_ops [simp]:
  "nrows (rsw i j M) = nrows M" "ncols (rsw i j M) = ncols M"
  "nrows (csw i j M) = nrows M" "ncols (csw i j M) = ncols M"
  "nrows (radd i j M) = nrows M" "ncols (radd i j M) = ncols M"
  "nrows (cadd i j M) = nrows M" "ncols (cadd i j M) = ncols M"
  "nrows (mmul A B) = nrows A" "ncols (mmul A B) = ncols B"
  "nrows (eye n) = n" "ncols (eye n) = n"
  by (simp_all add: rsw_def csw_def radd_def cadd_def mmul_def eye_def)

lemma wf_ops [simp]:
  "wf_mat (rsw i j M)" "wf_mat (csw i j M)" "wf_mat (radd i j M)" "wf_mat (cadd i j M)"
  "wf_mat (mmul A B)" "wf_mat (eye n)"
  by (simp_all add: rsw_def csw_def radd_def cadd_def mmul_def eye_def)

lemma ent_ops [simp]:
  "a < nrows M \<Longrightarrow> b < ncols M \<Longrightarrow> ent (rsw i j M) a b = ent M (swp i j a) b"
  "a < nrows M \<Longrightarrow> b < ncols M \<Longrightarrow> ent (csw i j M) a b = ent M a (swp i j b)"
  "a < nrows M \<Longrightarrow> b < ncols M \<Longrightarrow>
     ent (radd i j M) a b = (if a = i then lxor (ent M i b) (ent M j b) else ent M a b)"
  "a < nrows M \<Longrightarrow> b < ncols M \<Longrightarrow>
     ent (cadd i j M) a b = (if b = i then lxor (ent M a i) (ent M a j) else ent M a b)"
  by (simp_all add: rsw_def csw_def radd_def cadd_def)

lemma ent_mmul [simp]:
  "a < nrows A \<Longrightarrow> b < ncols B \<Longrightarrow>
     ent (mmul A B) a b = gdot (ncols A) (ent A a) (\<lambda>k. ent B k b)"
  by (simp add: mmul_def)

lemma ent_eye [simp]: "a < n \<Longrightarrow> b < n \<Longrightarrow> ent (eye n) a b = (if a = b then 1 else 0)"
  by (simp add: eye_def)

lemma swp_lt [simp]: "i < n \<Longrightarrow> j < n \<Longrightarrow> a < n \<Longrightarrow> swp i j a < n"
  by (simp add: swp_def)

lemma swp_swp [simp]: "swp i j (swp i j a) = a"
  by (simp add: swp_def)

lemma swp_commute: "swp i j = swp j i"
  by (rule ext) (simp add: swp_def)

lemma lxor_01: "lxor a b = 0 \<or> lxor a b = 1"
  by (simp add: lxor_def)

lemma bin_ops:
  "bin (mmul A B)" "bin (eye n)"
  "bin M \<Longrightarrow> i < nrows M \<Longrightarrow> j < nrows M \<Longrightarrow> bin (rsw i j M)"
  "bin M \<Longrightarrow> i < ncols M \<Longrightarrow> j < ncols M \<Longrightarrow> bin (csw i j M)"
  "bin M \<Longrightarrow> bin (radd i j M)"
  "bin M \<Longrightarrow> bin (cadd i j M)"
  using gdot_bounds by (auto simp: bin_def lxor_def)

lemma gdot_cong:
  "(\<And>k. k < n \<Longrightarrow> f k = f' k) \<Longrightarrow> (\<And>k. k < n \<Longrightarrow> g k = g' k) \<Longrightarrow> gdot n f g = gdot n f' g'"
  by (simp add: gdot_def)

lemma gdot_commute: "gdot n f g = gdot n g f"
  by (simp add: gdot_def mult.commute)

lemma sum_mod2_cong:
  "(\<And>k. k < n \<Longrightarrow> f k mod 2 = g k mod (2::int)) \<Longrightarrow> (\<Sum>k<(n::nat). f k) mod 2 = (\<Sum>k<n. g k) mod 2"
proof (induction n)
  case 0
  then show ?case by simp
next
  case (Suc n)
  then have a: "(\<Sum>k<n. f k) mod 2 = (\<Sum>k<n. g k) mod 2" and b: "f n mod 2 = g n mod 2"
    by simp_all
  show ?case unfolding sum.lessThan_Suc by (rule mod_add_cong[OF a b])
qed

lemma lxor_mod2: "lxor (x mod 2) (y mod 2) = (x + y) mod 2"
  unfolding lxor_def by presburger

lemma gdot_lxor_left:
  "gdot n (\<lambda>k. lxor (f k) (f' k)) g = lxor (gdot n f g) (gdot n f' g)"
proof -
  have "(\<Sum>k<n. tb (lxor (f k) (f' k)) * tb (g k)) mod 2
        = (\<Sum>k<n. tb (f k) * tb (g k) + tb (f' k) * tb (g k)) mod 2"
    by (rule sum_mod2_cong) (auto simp: tb_def lxor_def)
  also have "\<dots> = ((\<Sum>k<n. tb (f k) * tb (g k)) + (\<Sum>k<n. tb (f' k) * tb (g k))) mod 2"
    by (simp add: sum.distrib)
  also have "\<dots> = lxor (gdot n f g) (gdot n f' g)"
    unfolding gdot_def by (rule lxor_mod2[symmetric])
  finally show ?thesis by (simp only: gdot_def)
qed

lemma gdot_lxor_right:
  "gdot n f (\<lambda>k. lxor (g k) (g' k)) = lxor (gdot n f g) (gdot n f g')"
  using gdot_lxor_left[of n g g' f] by (simp add: gdot_commute)

lemma gdot_swp:
  assumes "i < n" "j < n"
  shows "gdot n (\<lambda>k. f (swp i j k)) (\<lambda>k. g (swp i j k)) = gdot n f g"
proof -
  have "(\<Sum>k<n. tb (f (swp i j k)) * tb (g (swp i j k))) = (\<Sum>k<n. tb (f k) * tb (g k))"
    by (rule sum.reindex_bij_witness[of _ "swp i j" "swp i j"]) (use assms in auto)
  then show ?thesis by (simp add: gdot_def)
qed

lemma gdot_unit_left: "i < n \<Longrightarrow> gdot n (\<lambda>k. if i = k then 1 else 0) g = tb (g i)"
proof -
  assume i: "i < n"
  have "(\<Sum>k<n. tb (if i = k then 1 else 0) * tb (g k)) = (\<Sum>k<n. if k = i then tb (g k) else 0)"
    by (rule sum.cong) (auto simp: tb_def)
  also have "\<dots> = tb (g i)" using i by (simp add: sum.delta)
  finally show ?thesis by (simp add: gdot_def tb_def)
qed

lemma gdot_unit_right: "i < n \<Longrightarrow> gdot n f (\<lambda>k. if k = i then 1 else 0) = tb (f i)"
proof -
  assume i: "i < n"
  have "(\<lambda>k. if k = i then 1 else 0 :: int) = (\<lambda>k. if i = k then 1 else 0)" by auto
  then show ?thesis using gdot_unit_left[OF i, of f] by (simp add: gdot_commute)
qed

text \<open>row operations on the left factor, column operations on the right factor\<close>

lemma mmul_rsw:
  assumes "i < nrows A" "j < nrows A"
  shows "mmul (rsw i j A) B = rsw i j (mmul A B)"
  by (rule mat_eqI) (use assms in \<open>auto intro!: gdot_cong\<close>)

lemma mmul_csw:
  assumes "i < ncols B" "j < ncols B" "ncols A = nrows B"
  shows "mmul A (csw i j B) = csw i j (mmul A B)"
  by (rule mat_eqI) (use assms in \<open>auto intro!: gdot_cong\<close>)

lemma mmul_radd:
  assumes "i < nrows A" "j < nrows A"
  shows "mmul (radd i j A) B = radd i j (mmul A B)"
proof (rule mat_eqI)
  fix a b assume a: "a < nrows (mmul (radd i j A) B)" and b: "b < ncols (mmul (radd i j A) B)"
  show "ent (mmul (radd i j A) B) a b = ent (radd i j (mmul A B)) a b"
  proof (cases "a = i")
    case True
    have "gdot (ncols A) (ent (radd i j A) i) (\<lambda>k. ent B k b)
          = gdot (ncols A) (\<lambda>k. lxor (ent A i k) (ent A j k)) (\<lambda>k. ent B k b)"
      by (rule gdot_cong) (use assms in auto)
    then show ?thesis using True a b assms by (simp add: gdot_lxor_left)
  next
    case False
    have "gdot (ncols A) (ent (radd i j A) a) (\<lambda>k. ent B k b)
          = gdot (ncols A) (ent A a) (\<lambda>k. ent B k b)"
      by (rule gdot_cong) (use False a in auto)
    then show ?thesis using False a b by simp
  qed
qed simp_all

lemma mmul_cadd:
  assumes "i < ncols B" "j < ncols B" "ncols A = nrows B"
  shows "mmul A (cadd i j B) = cadd i j (mmul A B)"
proof (rule mat_eqI)
  fix a b assume a: "a < nrows (mmul A (cadd i j B))" and b: "b < ncols (mmul A (cadd i j B))"
  show "ent (mmul A (cadd i j B)) a b = ent (cadd i j (mmul A B)) a b"
  proof (cases "b = i")
    case True
    have "gdot (ncols A) (ent A a) (\<lambda>k. ent (cadd i j B) k i)
          = gdot (ncols A) (ent A a) (\<lambda>k. lxor (ent B k i) (ent B k j))"
      by (rule gdot_cong) (use assms in auto)
    then show ?thesis using True a b assms by (simp add: gdot_lxor_right)
  next
    case False
    have "gdot (ncols A) (ent A a) (\<lambda>k. ent (cadd i j B) k b)
          = gdot (ncols A) (ent A a) (\<lambda>k. ent B k b)"
      by (rule gdot_cong) (use False b assms in auto)
    then show ?thesis using False a b by simp
  qed
qed simp_all

lemma rsw_csw_eye: "i < n \<Longrightarrow> j < n \<Longrightarrow> rsw i j (csw j i (eye n)) = eye n"
  by (rule mat_eqI) (auto simp: swp_def)

lemma radd_cadd_eye: "i < n \<Longrightarrow> j < n \<Longrightarrow> i \<noteq> j \<Longrightarrow> radd i j (cadd j i (eye n)) = eye n"
  by (rule mat_eqI) (auto simp: lxor_def)

lemma find_append_case:
  "find P (xs @ ys) = (case find P xs of None \<Rightarrow> find P ys | Some x \<Rightarrow> Some x)"
  by (induction xs) auto

lemma find_map_pair_Some:
  "find P (map (\<lambda>r. (r, c)) rs) = Some x \<Longrightarrow>
     \<exists>rs1 r rs2. x = (r, c) \<and> rs = rs1 @ r # rs2 \<and> P (r, c) \<and> (\<forall>r'\<in>set rs1. \<not> P (r', c))"
proof (induction rs)
  case Nil
  then show ?case by simp
next
  case (Cons a rs)
  show ?case
  proof (cases "P (a, c)")
    case True
    then have "x = (a, c)" using Cons.prems by simp
    then show ?thesis using True by (intro exI[of _ "[]"] exI[of _ a] exI[of _ rs]) simp
  next
    case False
    then have "find P (map (\<lambda>r. (r, c)) rs) = Some x" using Cons.prems by simp
    from Cons.IH[OF this] obtain rs1 r rs2 where
      "x = (r, c)" "rs = rs1 @ r # rs2" "P (r, c)" "\<forall>r'\<in>set rs1. \<not> P (r', c)" by blast
    then show ?thesis using False
      by (intro exI[of _ "a # rs1"] exI[of _ r] exI[of _ rs2]) simp
  qed
qed

lemma find_grid_Some:
  "find P (concat (map (\<lambda>c. map (\<lambda>r. (r, c)) rs) cs)) = Some x \<Longrightarrow>
     \<exists>cs1 c cs2 rs1 r rs2. x = (r, c) \<and> cs = cs1 @ c # cs2 \<and> rs = rs1 @ r # rs2 \<and> P (r, c) \<and>
        (\<forall>c'\<in>set cs1. \<forall>r'\<in>set rs. \<not> P (r', c')) \<and> (\<forall>r'\<in>set rs1. \<not> P (r', c))"
proof (induction cs)
  case Nil
  then show ?case by simp
next
  case (Cons c0 cs)
  show ?case
  proof (cases "find P (map (\<lambda>r. (r, c0)) rs)")
    case None
    then have no: "\<forall>r'\<in>set rs. \<not> P (r', c0)" by (auto simp: find_None_iff)
    have "find P (concat (map (\<lambda>c. map (\<lambda>r. (r, c)) rs) cs)) = Some x"
      using Cons.prems None by (simp add: find_append_case)
    from Cons.IH[OF this] obtain cs1 c cs2 rs1 r rs2 where
      h: "x = (r, c)" "cs = cs1 @ c # cs2" "rs = rs1 @ r # rs2" "P (r, c)"
         "\<forall>c'\<in>set cs1. \<forall>r'\<in>set rs. \<not> P (r', c')" "\<forall>r'\<in>set rs1. \<not> P (r', c)" by blast
    show ?thesis
      by (intro exI[of _ "c0 # cs1"] exI[of _ c] exI[of _ cs2] exI[of _ rs1] exI[of _ r] exI[of _ rs2])
         (use h no in simp)
  next
    case (Some y)
    then have "x = y" using Cons.prems by (simp add: find_append_case)
    with find_map_pair_Some[OF Some] obtain rs1 r rs2 where
      "x = (r, c0)" "rs = rs1 @ r # rs2" "P (r, c0)" "\<forall>r'\<in>set rs1. \<not> P (r', c0)" by blast
    then show ?thesis
      by (intro exI[of _ "[]"] exI[of _ c0] exI[of _ cs] exI[of _ rs1] exI[of _ r] exI[of _ rs2]) simp
  qed
qed

lemma upt_split:
  assumes "[a..<b] = xs @ x # ys"
  shows "set xs = {a..<x} \<and> a \<le> x \<and> x < b"
proof -
  let ?k = "length xs"
  have len: "length [a..<b] = ?k + 1 + length ys" using assms by simp
  then have k: "?k < b - a" by simp
  have "x = [a..<b] ! ?k" using assms by simp
  then have x: "x = a + ?k" using k by simp
  have "xs = take ?k [a..<b]" using assms by simp
  then have "xs = [a..<a + ?k]" using k by (simp add: take_upt)
  then have "set xs = {a..<x}" using x by (metis atLeastLessThan_upt)
  then show ?thesis using x k by simp
qed

lemma set_grid:
  "set (concat (map (\<lambda>c. map (\<lambda>r. (r, c)) rs) cs)) = set rs \<times> set cs"
  by auto

lemma get_next_pivot_None:
  "get_next_pivot M s1 s2 = None \<longleftrightarrow>
     (\<forall>c r. start_col s1 s2 \<le> c \<and> c < ncols M \<and> s1 \<le> r \<and> r < nrows M \<longrightarrow> ent M r c = 0)"
proof -
  let ?g = "concat (map (\<lambda>c. map (\<lambda>r. (r, c)) [s1..<nrows M]) [start_col s1 s2..<ncols M])"
  have g: "get_next_pivot M s1 s2 = find (\<lambda>(r, c). ent M r c \<noteq> 0) ?g"
    by (simp add: get_next_pivot_def start_col_def Let_def)
  show ?thesis unfolding g find_None_iff set_grid by auto
qed

lemma get_next_pivot_Some:
  assumes "get_next_pivot M s1 s2 = Some (r, c)"
  shows "s1 \<le> r \<and> r < nrows M \<and> start_col s1 s2 \<le> c \<and> c < ncols M \<and> ent M r c \<noteq> 0 \<and>
         (\<forall>c' r'. start_col s1 s2 \<le> c' \<and> c' < c \<and> s1 \<le> r' \<and> r' < nrows M \<longrightarrow> ent M r' c' = 0) \<and>
         (\<forall>r'. s1 \<le> r' \<and> r' < r \<longrightarrow> ent M r' c = 0)"
proof -
  let ?P = "\<lambda>(r, c). ent M r c \<noteq> 0"
  have "find ?P (concat (map (\<lambda>c. map (\<lambda>r. (r, c)) [s1..<nrows M]) [start_col s1 s2..<ncols M]))
          = Some (r, c)"
    using assms by (simp add: get_next_pivot_def start_col_def Let_def)
  from find_grid_Some[OF this] obtain cs1 c' cs2 rs1 r' rs2 where
    h: "(r, c) = (r', c')" "[start_col s1 s2..<ncols M] = cs1 @ c' # cs2"
       "[s1..<nrows M] = rs1 @ r' # rs2" "?P (r', c')"
       "\<forall>c''\<in>set cs1. \<forall>r''\<in>set [s1..<nrows M]. \<not> ?P (r'', c'')" "\<forall>r''\<in>set rs1. \<not> ?P (r'', c')"
    by blast
  have rc: "r' = r" "c' = c" using h(1) by simp_all
  from upt_split[OF h(2)] upt_split[OF h(3)] h(4,5,6) show ?thesis
    unfolding rc by auto
qed

lemma map_e_single: "f x = Inr y \<Longrightarrow> map_e f [x] = Inr [y]"
  by simp

lemma sr_ok:
  assumes "wf_mat S" "wf_mat L" "i < nrows S" "j < nrows S" "nrows L = nrows S"
  shows "sr i j S L = Inr (rsw i j S, rsw i j L)"
  using assms by (simp add: sr_def swap_rows_def rswap_rsw)

lemma sc_ok:
  assumes "wf_mat S" "wf_mat R" "i < ncols S" "j < ncols S" "ncols R = ncols S"
  shows "sc i j S R = Inr (csw i j S, csw i j R)"
  using assms by (simp add: sc_def swap_columns_def cswap_csw)

lemma ar_ok:
  assumes "wf_mat S" "wf_mat L" "i < nrows S" "j < nrows S" "nrows L = nrows S"
  shows "ar i j S L = Inr (radd i j S, radd i j L)"
  using assms by (simp add: ar_def bind_e_def add_to_row_radd)

lemma ac_ok:
  assumes "wf_mat S" "wf_mat R" "i < ncols S" "j < ncols S" "ncols R = ncols S"
  shows "ac i j S R = Inr (cadd i j S, cadd i j R)"
  using assms by (simp add: ac_def bind_e_def add_to_column_cadd)

lemma alg_inv_rsw:
  assumes "alg_inv M (L, R, S, Linv)" "i < nrows M" "j < nrows M"
  shows "alg_inv M (rsw i j L, R, rsw i j S, csw j i Linv)"
proof -
  have d: "nrows L = nrows M" "ncols L = nrows M" "nrows Linv = nrows M" "ncols Linv = nrows M"
    and p: "mmul (mmul L M) R = S" "mmul L Linv = eye (nrows M)"
    using assms(1) by (simp_all add: alg_inv_def)
  have "mmul (mmul (rsw i j L) M) R = mmul (rsw i j (mmul L M)) R"
    using assms d by (simp add: mmul_rsw)
  also have "\<dots> = rsw i j (mmul (mmul L M) R)"
    using assms d by (simp add: mmul_rsw)
  finally have 1: "mmul (mmul (rsw i j L) M) R = rsw i j S" using p by simp
  have "mmul (rsw i j L) (csw j i Linv) = rsw i j (mmul L (csw j i Linv))"
    using assms d by (simp add: mmul_rsw)
  also have "mmul L (csw j i Linv) = csw j i (mmul L Linv)"
    using assms d by (simp add: mmul_csw)
  finally have 2: "mmul (rsw i j L) (csw j i Linv) = eye (nrows M)"
    using p assms by (simp add: rsw_csw_eye)
  show ?thesis using assms 1 2
    by (auto simp: alg_inv_def bin_ops)
qed

lemma alg_inv_csw:
  assumes "alg_inv M (L, R, S, Linv)" "i < ncols M" "j < ncols M"
  shows "alg_inv M (L, csw i j R, csw i j S, Linv)"
proof -
  from assms(1) obtain Rinv where
    Rinv: "wf_mat Rinv" "nrows Rinv = ncols M" "ncols Rinv = ncols M" "bin Rinv"
          "mmul Rinv R = eye (ncols M)"
    by (auto simp: alg_inv_def)
  have d: "nrows R = ncols M" "ncols R = ncols M"
    and p: "mmul (mmul L M) R = S"
    using assms(1) by (simp_all add: alg_inv_def)
  have 1: "mmul (mmul L M) (csw i j R) = csw i j S"
    using assms d p by (simp add: mmul_csw)
  have "mmul (rsw j i Rinv) (csw i j R) = rsw j i (mmul Rinv (csw i j R))"
    using assms d Rinv by (simp add: mmul_rsw)
  also have "mmul Rinv (csw i j R) = csw i j (mmul Rinv R)"
    using assms d Rinv by (simp add: mmul_csw)
  finally have 2: "mmul (rsw j i Rinv) (csw i j R) = eye (ncols M)"
    using Rinv assms by (simp add: rsw_csw_eye)
  have 3: "wf_mat (rsw j i Rinv) \<and> nrows (rsw j i Rinv) = ncols M \<and>
           ncols (rsw j i Rinv) = ncols M \<and> bin (rsw j i Rinv)"
    using Rinv assms by (simp add: bin_ops)
  have E: "\<exists>Rinv. wf_mat Rinv \<and> nrows Rinv = ncols M \<and> ncols Rinv = ncols M \<and> bin Rinv \<and>
                mmul Rinv (csw i j R) = eye (ncols M)"
    using 2 3 by blast
  show ?thesis using assms 1 E
    by (simp add: alg_inv_def bin_ops)
qed

lemma alg_inv_radd:
  assumes "alg_inv M (L, R, S, Linv)" "i < nrows M" "j < nrows M" "i \<noteq> j"
  shows "alg_inv M (radd i j L, R, radd i j S, cadd j i Linv)"
proof -
  have d: "nrows L = nrows M" "ncols L = nrows M" "nrows Linv = nrows M" "ncols Linv = nrows M"
    and p: "mmul (mmul L M) R = S" "mmul L Linv = eye (nrows M)"
    using assms(1) by (simp_all add: alg_inv_def)
  have "mmul (mmul (radd i j L) M) R = mmul (radd i j (mmul L M)) R"
    using assms d by (simp add: mmul_radd)
  also have "\<dots> = radd i j (mmul (mmul L M) R)"
    using assms d by (simp add: mmul_radd)
  finally have 1: "mmul (mmul (radd i j L) M) R = radd i j S" using p by simp
  have "mmul (radd i j L) (cadd j i Linv) = radd i j (mmul L (cadd j i Linv))"
    using assms d by (simp add: mmul_radd)
  also have "mmul L (cadd j i Linv) = cadd j i (mmul L Linv)"
    using assms d by (simp add: mmul_cadd)
  finally have 2: "mmul (radd i j L) (cadd j i Linv) = eye (nrows M)"
    using p assms by (simp add: radd_cadd_eye)
  show ?thesis using assms 1 2
    by (auto simp: alg_inv_def bin_ops)
qed

lemma alg_inv_cadd:
  assumes "alg_inv M (L, R, S, Linv)" "i < ncols M" "j < ncols M" "i \<noteq> j"
  shows "alg_inv M (L, cadd i j R, cadd i j S, Linv)"
proof -
  from assms(1) obtain Rinv where
    Rinv: "wf_mat Rinv" "nrows Rinv = ncols M" "ncols Rinv = ncols M" "bin Rinv"
          "mmul Rinv R = eye (ncols M)"
    by (auto simp: alg_inv_def)
  have d: "nrows R = ncols M" "ncols R = ncols M"
    and p: "mmul (mmul L M) R = S"
    using assms(1) by (simp_all add: alg_inv_def)
  have 1: "mmul (mmul L M) (cadd i j R) = cadd i j S"
    using assms d p by (simp add: mmul_cadd)
  have "mmul (radd j i Rinv) (cadd i j R) = radd j i (mmul Rinv (cadd i j R))"
    using assms d Rinv by (simp add: mmul_radd)
  also have "mmul Rinv (cadd i j R) = cadd i j (mmul Rinv R)"
    using assms d Rinv by (simp add: mmul_cadd)
  finally have 2: "mmul (radd j i Rinv) (cadd i j R) = eye (ncols M)"
    using Rinv assms by (simp add: radd_cadd_eye)
  have 3: "wf_mat (radd j i Rinv) \<and> nrows (radd j i Rinv) = ncols M \<and>
           ncols (radd j i Rinv) = ncols M \<and> bin (radd j i Rinv)"
    using Rinv assms by (simp add: bin_ops)
  have E: "\<exists>Rinv. wf_mat Rinv \<and> nrows Rinv = ncols M \<and> ncols Rinv = ncols M \<and> bin Rinv \<and>
                mmul Rinv (cadd i j R) = eye (ncols M)"
    using 2 3 by blast
  show ?thesis using assms 1 E
    by (simp add: alg_inv_def bin_ops)
qed

lemma rsw_same: "wf_mat M \<Longrightarrow> rsw i i M = M"
  by (rule mat_eqI) (simp_all add: swp_def)

lemma csw_same: "wf_mat M \<Longrightarrow> csw i i M = M"
  by (rule mat_eqI) (simp_all add: swp_def)

lemma mmul_eye_left: "wf_mat M \<Longrightarrow> bin M \<Longrightarrow> mmul (eye (nrows M)) M = M"
proof (rule mat_eqI)
  fix i j assume wf: "wf_mat M" and b: "bin M"
    and i: "i < nrows (mmul (eye (nrows M)) M)" and j: "j < ncols (mmul (eye (nrows M)) M)"
  have "gdot (nrows M) (ent (eye (nrows M)) i) (\<lambda>k. ent M k j)
        = gdot (nrows M) (\<lambda>k. if i = k then 1 else 0) (\<lambda>k. ent M k j)"
    by (rule gdot_cong) (use i in auto)
  also have "\<dots> = tb (ent M i j)" using i by (simp add: gdot_unit_left)
  also have "\<dots> = ent M i j" using b i j by (auto simp: bin_def)
  finally show "ent (mmul (eye (nrows M)) M) i j = ent M i j" using i j by simp
qed simp_all

lemma mmul_eye_right: "wf_mat M \<Longrightarrow> bin M \<Longrightarrow> mmul M (eye (ncols M)) = M"
proof (rule mat_eqI)
  fix i j assume wf: "wf_mat M" and b: "bin M"
    and i: "i < nrows (mmul M (eye (ncols M)))" and j: "j < ncols (mmul M (eye (ncols M)))"
  have "gdot (ncols M) (ent M i) (\<lambda>k. ent (eye (ncols M)) k j)
        = gdot (ncols M) (ent M i) (\<lambda>k. if k = j then 1 else 0)"
    by (rule gdot_cong) (use j in auto)
  also have "\<dots> = tb (ent M i j)" using j by (simp add: gdot_unit_right)
  also have "\<dots> = ent M i j" using b i j by (auto simp: bin_def)
  finally show "ent (mmul M (eye (ncols M))) i j = ent M i j" using i j by simp
qed simp_all

lemma alg_inv_init:
  assumes "wf_mat M" "bin M"
  shows "alg_inv M (eye (nrows M), eye (ncols M), M, eye (nrows M))"
proof -
  have 1: "mmul (mmul (eye (nrows M)) M) (eye (ncols M)) = M"
    using assms by (simp add: mmul_eye_left mmul_eye_right)
  have 2: "mmul (eye (nrows M)) (eye (nrows M)) = eye (nrows M)"
    using mmul_eye_left[of "eye (nrows M)"] by (simp add: bin_ops)
  have 3: "mmul (eye (ncols M)) (eye (ncols M)) = eye (ncols M)"
    using mmul_eye_left[of "eye (ncols M)"] by (simp add: bin_ops)
  have E: "\<exists>Rinv. wf_mat Rinv \<and> nrows Rinv = ncols M \<and> ncols Rinv = ncols M \<and> bin Rinv \<and>
                mmul Rinv (eye (ncols M)) = eye (ncols M)"
    by (rule exI[of _ "eye (ncols M)"]) (simp add: 3 bin_ops)
  show ?thesis using assms 1 2 E by (simp add: alg_inv_def bin_ops)
qed

lemma fold_radd_dims:
  "nrows (fold (\<lambda>r. radd r s) rs S) = nrows S \<and> ncols (fold (\<lambda>r. radd r s) rs S) = ncols S"
  by (induction rs arbitrary: S) simp_all

lemma fold_cadd_dims:
  "nrows (fold (\<lambda>c. cadd c s) cs S) = nrows S \<and> ncols (fold (\<lambda>c. cadd c s) cs S) = ncols S"
  by (induction cs arbitrary: S) simp_all

lemma fold_radd_ent:
  assumes "distinct rs" "s \<notin> set rs" "s < nrows S" "a < nrows S" "b < ncols S"
  shows "ent (fold (\<lambda>r. radd r s) rs S) a b
         = (if a \<in> set rs then lxor (ent S a b) (ent S s b) else ent S a b)"
  using assms
proof (induction rs arbitrary: S)
  case Nil
  then show ?case by simp
next
  case (Cons r rs)
  have "ent (fold (\<lambda>r. radd r s) rs (radd r s S)) a b
        = (if a \<in> set rs then lxor (ent (radd r s S) a b) (ent (radd r s S) s b)
           else ent (radd r s S) a b)"
    by (rule Cons.IH) (use Cons.prems in auto)
  then show ?case using Cons.prems by auto
qed

lemma fold_cadd_ent:
  assumes "distinct cs" "s \<notin> set cs" "s < ncols S" "a < nrows S" "b < ncols S"
  shows "ent (fold (\<lambda>c. cadd c s) cs S) a b
         = (if b \<in> set cs then lxor (ent S a b) (ent S a s) else ent S a b)"
  using assms
proof (induction cs arbitrary: S)
  case Nil
  then show ?case by simp
next
  case (Cons c cs)
  have "ent (fold (\<lambda>c. cadd c s) cs (cadd c s S)) a b
        = (if b \<in> set cs then lxor (ent (cadd c s S) a b) (ent (cadd c s S) a s)
           else ent (cadd c s S) a b)"
    by (rule Cons.IH) (use Cons.prems in auto)
  then show ?case using Cons.prems by auto
qed

lemma alg_invD:
  assumes "alg_inv M (L, R, S, Linv)"
  shows "wf_mat L" "wf_mat R" "wf_mat S" "wf_mat Linv"
    "nrows L = nrows M" "ncols L = nrows M" "nrows R = ncols M" "ncols R = ncols M"
    "nrows S = nrows M" "ncols S = ncols M" "nrows Linv = nrows M" "ncols Linv = nrows M"
    "bin L" "bin R" "bin S" "bin Linv"
  using assms by (simp_all add: alg_inv_def)

lemma snf_add_rows_ok:
  assumes "alg_inv M (L, R, S, Linv)" "s < nrows M" "\<forall>r\<in>set rs. r < nrows M \<and> r \<noteq> s"
  shows "\<exists>L' Linv'. snf_add_rows s rs (L, R, S, Linv)
            = Inr (L', R, fold (\<lambda>r. radd r s) rs S, Linv') \<and>
          alg_inv M (L', R, fold (\<lambda>r. radd r s) rs S, Linv')"
  using assms
proof (induction rs arbitrary: L S Linv)
  case Nil
  then show ?case by (simp add: snf_add_rows_def)
next
  case (Cons r rs)
  note d = alg_invD[OF Cons.prems(1)]
  have r: "r < nrows M" "r \<noteq> s" using Cons.prems(3) by simp_all
  have 1: "ar r s S L = Inr (radd r s S, radd r s L)"
    using d r Cons.prems(2) by (simp add: ar_ok)
  have 2: "add_to_column Linv s r = Inr (cadd s r Linv)"
    using d r Cons.prems(2) by (simp add: add_to_column_cadd)
  have inv: "alg_inv M (radd r s L, R, radd r s S, cadd s r Linv)"
    using Cons.prems r by (intro alg_inv_radd) simp_all
  from Cons.IH[OF inv Cons.prems(2)] Cons.prems(3)
  obtain L' Linv' where
    "snf_add_rows s rs (radd r s L, R, radd r s S, cadd s r Linv)
       = Inr (L', R, fold (\<lambda>r. radd r s) rs (radd r s S), Linv')"
    "alg_inv M (L', R, fold (\<lambda>r. radd r s) rs (radd r s S), Linv')"
    by auto
  then show ?case using 1 2
    by (simp add: snf_add_rows_def bind_e_def)
qed

lemma snf_add_columns_ok:
  assumes "alg_inv M (L, R, S, Linv)" "s < ncols M" "\<forall>c\<in>set cs. c < ncols M \<and> c \<noteq> s"
  shows "\<exists>R'. snf_add_columns s cs (L, R, S, Linv)
            = Inr (L, R', fold (\<lambda>c. cadd c s) cs S, Linv) \<and>
          alg_inv M (L, R', fold (\<lambda>c. cadd c s) cs S, Linv)"
  using assms
proof (induction cs arbitrary: R S)
  case Nil
  then show ?case by (simp add: snf_add_columns_def)
next
  case (Cons c cs)
  note d = alg_invD[OF Cons.prems(1)]
  have c: "c < ncols M" "c \<noteq> s" using Cons.prems(3) by simp_all
  have 1: "ac c s S R = Inr (cadd c s S, cadd c s R)"
    using d c Cons.prems(2) by (simp add: ac_ok)
  have inv: "alg_inv M (L, cadd c s R, cadd c s S, Linv)"
    using Cons.prems c by (intro alg_inv_cadd) simp_all
  from Cons.IH[OF inv Cons.prems(2)] Cons.prems(3)
  obtain R' where
    "snf_add_columns s cs (L, cadd c s R, cadd c s S, Linv)
       = Inr (L, R', fold (\<lambda>c. cadd c s) cs (cadd c s S), Linv)"
    "alg_inv M (L, R', fold (\<lambda>c. cadd c s) cs (cadd c s S), Linv)"
    by auto
  then show ?case using 1
    by (simp add: snf_add_columns_def bind_e_def)
qed

lemma swap_columns_single:
  "wf_mat A \<Longrightarrow> i < ncols A \<Longrightarrow> j < ncols A \<Longrightarrow> swap_columns i j [A] = Inr [csw i j A]"
  by (simp add: swap_columns_def cswap_csw)

lemma binD: "bin M \<Longrightarrow> i < nrows M \<Longrightarrow> j < ncols M \<Longrightarrow> ent M i j \<noteq> 0 \<Longrightarrow> ent M i j = 1"
  by (auto simp: bin_def)

lemma binD0: "bin M \<Longrightarrow> i < nrows M \<Longrightarrow> j < ncols M \<Longrightarrow> ent M i j \<noteq> 1 \<Longrightarrow> ent M i j = 0"
  by (auto simp: bin_def)

lemma snf_body_ok:
  assumes inv: "alg_inv M (L, R, S, Linv)" and dg: "diag_upto s S"
    and s: "s < nrows M" "s < ncols M"
    and pv: "get_next_pivot S s None = Some (rdx, cdx)"
  shows "\<exists>L' R' S' Linv'. snf_body s rdx cdx (L, R, S, Linv) = Inr (L', R', S', Linv') \<and>
           alg_inv M (L', R', S', Linv') \<and> diag_upto (Suc s) S'"
proof -
  note d = alg_invD[OF inv]
  let ?m = "nrows M" and ?n = "ncols M"
  from get_next_pivot_Some[OF pv]
  have p: "s \<le> rdx" "rdx < ?m" "s \<le> cdx" "cdx < ?n" "ent S rdx cdx \<noteq> 0"
    using d by (simp_all add: start_col_def)
  define L1 where "L1 = rsw s rdx L"
  define S1 where "S1 = rsw s rdx S"
  define Linv1 where "Linv1 = csw rdx s Linv"
  have ph1: "(if rdx > s
                then bind_e (sr s rdx S L) (\<lambda>(S', L').
                     bind_e (swap_columns rdx s [Linv]) (\<lambda>out.
                       case out of [] \<Rightarrow> Inl IndexError
                       | Linv' # _ \<Rightarrow> Inr (L', R, S', Linv')))
                else Inr (L, R, S, Linv)) = Inr (L1, R, S1, Linv1)"
  proof (cases "rdx > s")
    case True
    then show ?thesis using d s p
      by (simp add: sr_ok swap_columns_single bind_e_def L1_def S1_def Linv1_def)
  next
    case False
    then have "rdx = s" using p by simp
    then show ?thesis using d by (simp add: rsw_same csw_same L1_def S1_def Linv1_def)
  qed
  have inv1: "alg_inv M (L1, R, S1, Linv1)"
    unfolding L1_def S1_def Linv1_def using inv s p by (intro alg_inv_rsw) simp_all
  note d1 = alg_invD[OF inv1]
  define S2 where "S2 = csw s cdx S1"
  define R2 where "R2 = csw s cdx R"
  have ph2: "(if cdx > s
                then bind_e (sc s cdx S1 R) (\<lambda>(S', R'). Inr (L1, R', S', Linv1))
                else Inr (L1, R, S1, Linv1)) = Inr (L1, R2, S2, Linv1)"
  proof (cases "cdx > s")
    case True
    then show ?thesis using d1 s p
      by (simp add: sc_ok bind_e_def S2_def R2_def)
  next
    case False
    then have "cdx = s" using p by simp
    then show ?thesis using d1 by (simp add: csw_same S2_def R2_def)
  qed
  have inv2: "alg_inv M (L1, R2, S2, Linv1)"
    unfolding S2_def R2_def using inv1 s p by (intro alg_inv_csw) simp_all
  note d2 = alg_invD[OF inv2]
  define rws where "rws = [idx \<leftarrow> [s + 1..<nrows S2]. ent S2 idx s = 1]"
  define S3 where "S3 = fold (\<lambda>r. radd r s) rws S2"
  have rws: "\<forall>r\<in>set rws. r < ?m \<and> r \<noteq> s" "distinct rws" "s \<notin> set rws"
    using d2 by (auto simp: rws_def)
  from snf_add_rows_ok[OF inv2 s(1) rws(1)] obtain L3 Linv3 where
    ph3: "snf_add_rows s rws (L1, R2, S2, Linv1) = Inr (L3, R2, S3, Linv3)"
    and inv3: "alg_inv M (L3, R2, S3, Linv3)"
    unfolding S3_def by blast
  note d3 = alg_invD[OF inv3]
  define cls where "cls = [jdx \<leftarrow> [s + 1..<ncols S3]. ent S3 s jdx = 1]"
  define S4 where "S4 = fold (\<lambda>c. cadd c s) cls S3"
  have cls: "\<forall>c\<in>set cls. c < ?n \<and> c \<noteq> s" "distinct cls" "s \<notin> set cls"
    using d3 by (auto simp: cls_def)
  from snf_add_columns_ok[OF inv3 s(2) cls(1)] obtain R4 where
    ph4: "snf_add_columns s cls (L3, R2, S3, Linv3) = Inr (L3, R4, S4, Linv3)"
    and inv4: "alg_inv M (L3, R4, S4, Linv3)"
    unfolding S4_def by blast
  note d4 = alg_invD[OF inv4]
  have body: "snf_body s rdx cdx (L, R, S, Linv) = Inr (L3, R4, S4, Linv3)"
  proof -
    have ph3': "snf_add_rows s (filter (\<lambda>idx. ent S2 idx s = 1) [Suc s..<nrows S2])
                  (L1, R2, S2, Linv1) = Inr (L3, R2, S3, Linv3)"
      using ph3 by (simp add: rws_def)
    have ph4': "snf_add_columns s (filter (\<lambda>jdx. ent S3 s jdx = 1) [Suc s..<ncols S3])
                  (L3, R2, S3, Linv3) = Inr (L3, R4, S4, Linv3)"
      using ph4 by (simp add: cls_def)
    show ?thesis
      unfolding snf_body_def prod.case ph1
      by (simp add: bind_e_def ph2 ph3' ph4')
  qed
  \<comment> \<open>entries\<close>
  have e2: "ent S2 a b = ent S (swp s rdx a) (swp s cdx b)" if "a < ?m" "b < ?n" for a b
    using that d s p by (simp add: S2_def S1_def)
  have dS: "ent S i j = (if i = j then 1 else 0)" if "i < ?m" "j < ?n" "i < s \<or> j < s" for i j
    using dg that d(9,10) unfolding diag_upto_def by metis
  have dg2: "ent S2 i j = (if i = j then 1 else 0)" if "i < ?m" "j < ?n" "i < s \<or> j < s" for i j
  proof -
    have "swp s rdx i < ?m" "swp s cdx j < ?n" using that s p by simp_all
    moreover have "swp s rdx i < s \<or> swp s cdx j < s" using that p by (auto simp: swp_def)
    moreover have "swp s rdx i = swp s cdx j \<longleftrightarrow> i = j" using that p by (auto simp: swp_def)
    ultimately show ?thesis using e2[OF that(1,2)] dS[of "swp s rdx i" "swp s cdx j"] by simp
  qed
  have pv2: "ent S2 s s = 1"
    using e2[OF s] p d binD[of S rdx cdx] by (simp add: swp_def)
  have e3: "ent S3 a b = (if a \<in> set rws then lxor (ent S2 a b) (ent S2 s b) else ent S2 a b)"
    if "a < ?m" "b < ?n" for a b
    unfolding S3_def using that d2 s rws by (intro fold_radd_ent) simp_all
  have in_rws: "a \<in> set rws \<longleftrightarrow> s < a \<and> a < ?m \<and> ent S2 a s = 1" for a
    using d2 by (auto simp: rws_def)
  have col3: "ent S3 a s = (if a = s then 1 else 0)" if "a < ?m" for a
  proof (cases "a \<in> set rws")
    case True
    then show ?thesis using e3[OF that s(2)] pv2 in_rws[of a] by (simp add: lxor_def)
  next
    case False
    show ?thesis
    proof (cases "a \<le> s")
      case True
      then show ?thesis using e3[OF that s(2)] False pv2 dg2[OF that s(2)] by auto
    next
      case False
      then have "ent S2 a s \<noteq> 1" using \<open>a \<notin> set rws\<close> in_rws[of a] that by simp
      then have "ent S2 a s = 0" using binD0[of S2 a s] d2 that s by simp
      then show ?thesis using e3[OF that s(2)] \<open>a \<notin> set rws\<close> False by simp
    qed
  qed
  have dg3: "ent S3 i j = (if i = j then 1 else 0)" if "i < ?m" "j < ?n" "i < s \<or> j < s" for i j
  proof (cases "i \<in> set rws")
    case True
    then have "s < i" using in_rws by simp
    then have "j < s" using that by simp
    then show ?thesis using e3[OF that(1,2)] True dg2[OF that(1,2)] dg2[OF s(1) that(2)] \<open>s < i\<close>
      by (simp add: lxor_def)
  next
    case False
    then show ?thesis using e3[OF that(1,2)] dg2[OF that] by simp
  qed
  have e4: "ent S4 a b = (if b \<in> set cls then lxor (ent S3 a b) (ent S3 a s) else ent S3 a b)"
    if "a < ?m" "b < ?n" for a b
    unfolding S4_def using that d3 s cls by (intro fold_cadd_ent) simp_all
  have in_cls: "b \<in> set cls \<longleftrightarrow> s < b \<and> b < ?n \<and> ent S3 s b = 1" for b
    using d3 by (auto simp: cls_def)
  have b3: "ent S3 a b = 0 \<or> ent S3 a b = 1" if "a < ?m" "b < ?n" for a b
    using d3 that by (simp add: bin_def)
  have dg4: "ent S4 i j = (if i = j then 1 else 0)" if "i < ?m" "j < ?n" "i < Suc s \<or> j < Suc s" for i j
  proof (cases "j \<in> set cls")
    case True
    then have j: "s < j" "ent S3 s j = 1" using in_cls by simp_all
    then have i: "i \<le> s" using that by simp
    show ?thesis
    proof (cases "i = s")
      case True
      then show ?thesis using e4[OF that(1,2)] \<open>j \<in> set cls\<close> j col3[OF that(1)] by (simp add: lxor_def)
    next
      case False
      then have "i < s" using i by simp
      then show ?thesis using e4[OF that(1,2)] \<open>j \<in> set cls\<close> j col3[OF that(1)] dg3[OF that(1,2)]
        by (simp add: lxor_def)
    qed
  next
    case False
    have eq: "ent S4 i j = ent S3 i j" using e4[OF that(1,2)] False by simp
    show ?thesis
    proof (cases "i < s \<or> j < s")
      case True
      then show ?thesis using eq dg3[OF that(1,2)] by simp
    next
      case nlt: False
      then have "i = s \<or> j = s" using that by auto
      then show ?thesis
      proof
        assume "j = s"
        then show ?thesis using eq col3[OF that(1)] by simp
      next
        assume i_s: "i = s"
        show ?thesis
        proof (cases "j = s")
          case True
          then show ?thesis using eq col3[OF that(1)] by simp
        next
          case False
          then have "s < j" using nlt by simp
          then have "ent S3 s j \<noteq> 1" using \<open>j \<notin> set cls\<close> in_cls[of j] that by simp
          then have "ent S3 s j = 0" using b3[OF s(1) that(2)] by simp
          then show ?thesis using eq i_s False by simp
        qed
      qed
    qed
  qed
  have "diag_upto (Suc s) S4"
    unfolding diag_upto_def using dg4 d4 by simp
  then show ?thesis using body inv4 by blast
qed

lemma snf_loop_ok:
  assumes "alg_inv M (L, R, S, Linv)" "diag_upto s S" "s \<le> k" "k = min (nrows M) (ncols M)"
  shows "\<exists>L' R' S' Linv' r. snf_loop [s..<k] (L, R, S, Linv) = Inr (L', R', S', Linv') \<and>
           alg_inv M (L', R', S', Linv') \<and> r \<le> k \<and>
           (\<forall>i<nrows M. \<forall>j<ncols M. ent S' i j = (if i = j \<and> i < r then 1 else 0))"
  using assms
proof (induction "k - s" arbitrary: s L R S Linv)
  case 0
  then have sk: "s = k" using "0.prems"(3) by linarith
  note d = alg_invD[OF "0.prems"(1)]
  have "ent S i j = (if i = j \<and> i < k then 1 else 0)" if "i < nrows M" "j < ncols M" for i j
  proof -
    have "i < k \<or> j < k" using that "0.prems"(4) by auto
    then show ?thesis using "0.prems"(2) that d(9,10) sk unfolding diag_upto_def by auto
  qed
  then show ?case using sk "0.prems"(1) by (intro exI[of _ L] exI[of _ R] exI[of _ S] exI[of _ Linv] exI[of _ k]) simp
next
  case (Suc n)
  have sk: "s < k" using Suc.hyps(2) by linarith
  have s: "s < nrows M" "s < ncols M" using sk Suc.prems(4) by linarith+
  note d = alg_invD[OF Suc.prems(1)]
  have upt: "[s..<k] = s # [Suc s..<k]" using sk by (simp add: upt_conv_Cons)
  show ?case
  proof (cases "get_next_pivot S s None")
    case None
    then have z: "ent S i j = 0" if "s \<le> i" "i < nrows M" "s \<le> j" "j < ncols M" for i j
      using that d(9,10) by (simp add: get_next_pivot_None start_col_def)
    have "ent S i j = (if i = j \<and> i < s then 1 else 0)" if "i < nrows M" "j < ncols M" for i j
    proof (cases "i < s \<or> j < s")
      case True
      then show ?thesis using Suc.prems(2) that d(9,10) unfolding diag_upto_def by auto
    next
      case False
      then show ?thesis using z[of i j] that by simp
    qed
    then show ?thesis using None upt Suc.prems(1) sk
      by (intro exI[of _ L] exI[of _ R] exI[of _ S] exI[of _ Linv] exI[of _ s]) simp
  next
    case (Some p)
    obtain rdx cdx where p: "p = (rdx, cdx)" by (cases p)
    from snf_body_ok[OF Suc.prems(1,2) s Some[unfolded p]] obtain L1 R1 S1 Linv1 where
      b: "snf_body s rdx cdx (L, R, S, Linv) = Inr (L1, R1, S1, Linv1)"
      and inv1: "alg_inv M (L1, R1, S1, Linv1)" and dg1: "diag_upto (Suc s) S1"
      by blast
    have "n = k - Suc s" using Suc.hyps(2) by simp
    from Suc.hyps(1)[OF this inv1 dg1 _ Suc.prems(4)] sk
    obtain L' R' S' Linv' r where
      "snf_loop [Suc s..<k] (L1, R1, S1, Linv1) = Inr (L', R', S', Linv')"
      "alg_inv M (L', R', S', Linv')" "r \<le> k"
      "\<forall>i<nrows M. \<forall>j<ncols M. ent S' i j = (if i = j \<and> i < r then 1 else 0)"
      by auto
    then show ?thesis using Some p b upt
      by (intro exI[of _ L'] exI[of _ R'] exI[of _ S'] exI[of _ Linv'] exI[of _ r])
         (simp add: bind_e_def)
  qed
qed

lemma smith_normal_form_mod2_ok:
  assumes "wf_mat M" "bin M"
  shows "\<exists>L R S Linv r. smith_normal_form_mod2 M = Inr (L, R, S, Linv) \<and>
           alg_inv M (L, R, S, Linv) \<and> r \<le> min (nrows M) (ncols M) \<and>
           (\<forall>i<nrows M. \<forall>j<ncols M. ent S i j = (if i = j \<and> i < r then 1 else 0))"
proof -
  have dg: "diag_upto 0 M" by (simp add: diag_upto_def)
  from snf_loop_ok[OF alg_inv_init[OF assms] dg, of "min (nrows M) (ncols M)"]
  show ?thesis by (simp add: smith_normal_form_mod2_def Let_def)
qed

lemma matmulreduce3:
  assumes "wf_mat A" "wf_mat B" "wf_mat C" "ncols A = nrows B" "ncols B = nrows C"
  shows "matmulreduce [A, B, C] False = Inr (mmul (mmul A B) C)"
  using assms by (simp add: matmulreduce_def logical_matmul_mmul)

lemma finite_gf2_vectors: "finite (gf2_vectors n)"
  unfolding gf2_vectors_def by (rule finite_lists_length_eq) simp

lemma card_gf2_vectors: "card (gf2_vectors n) = 2 ^ n"
  unfolding gf2_vectors_def using card_lists_length_eq[of "{0, 1::int}" n]
  by (simp add: numeral_2_eq_2)

lemma gf2_nth: "v \<in> gf2_vectors n \<Longrightarrow> i < n \<Longrightarrow> v ! i = 0 \<or> v ! i = 1"
proof -
  assume v: "v \<in> gf2_vectors n" and i: "i < n"
  then have "v ! i \<in> set v" by (simp add: gf2_vectors_def)
  moreover have "set v \<subseteq> {0, 1}" using v by (simp add: gf2_vectors_def)
  ultimately show ?thesis by blast
qed

lemma gf2_length: "v \<in> gf2_vectors n \<Longrightarrow> length v = n"
  by (simp add: gf2_vectors_def)

lemma lincomb_length [simp]: "length (lincomb c M) = ncols M"
  by (simp add: lincomb_def)

lemma lincomb_nth: "j < ncols M \<Longrightarrow> lincomb c M ! j = (\<Sum>i<nrows M. c ! i * ent M i j) mod 2"
  by (simp add: lincomb_def)

lemma lincomb_gf2: "lincomb c M \<in> gf2_vectors (ncols M)"
proof -
  have "x mod 2 = 0 \<or> x mod 2 = 1" for x :: int by presburger
  then show ?thesis by (auto simp: gf2_vectors_def lincomb_def)
qed

lemma gf2_eqI:
  assumes "u \<in> gf2_vectors n" "v \<in> gf2_vectors n" "\<And>j. j < n \<Longrightarrow> u ! j = v ! j"
  shows "u = v"
  using assms by (intro nth_equalityI) (auto simp: gf2_vectors_def)

lemma ent_mmul_bin:
  assumes "bin A" "bin B" "ncols A = nrows B" "i < nrows A" "j < ncols B"
  shows "ent (mmul A B) i j = (\<Sum>k<ncols A. ent A i k * ent B k j) mod 2"
proof -
  have "(\<Sum>k<ncols A. tb (ent A i k) * tb (ent B k j)) = (\<Sum>k<ncols A. ent A i k * ent B k j)"
  proof (rule sum.cong)
    fix k assume "k \<in> {..<ncols A}"
    then have k: "k < ncols A" by simp
    have "tb (ent A i k) = ent A i k" using assms(1,4) k by (intro tb_01) (auto simp: bin_def)
    moreover have "tb (ent B k j) = ent B k j" using assms(2,3,5) k by (intro tb_01) (auto simp: bin_def)
    ultimately show "tb (ent A i k) * tb (ent B k j) = ent A i k * ent B k j" by simp
  qed simp
  then show ?thesis using assms by (simp add: gdot_def)
qed

lemma lincomb_assoc:
  assumes "bin A" "bin B" "ncols A = nrows B"
  shows "lincomb (lincomb c A) B = lincomb c (mmul A B)"
proof (rule nth_equalityI)
  fix j assume "j < length (lincomb (lincomb c A) B)"
  then have j: "j < ncols B" by simp
  let ?m = "nrows A" and ?n = "ncols A"
  have "lincomb (lincomb c A) B ! j = (\<Sum>k<?n. lincomb c A ! k * ent B k j) mod 2"
    using j assms(3) by (simp add: lincomb_nth)
  also have "\<dots> = (\<Sum>k<?n. (\<Sum>i<?m. c ! i * ent A i k) * ent B k j) mod 2"
    by (rule sum_mod2_cong) (simp add: lincomb_nth mod_mult_left_eq)
  also have "(\<Sum>k<?n. (\<Sum>i<?m. c ! i * ent A i k) * ent B k j)
             = (\<Sum>k<?n. \<Sum>i<?m. c ! i * (ent A i k * ent B k j))"
    by (simp add: sum_distrib_right mult.assoc)
  also have "\<dots> = (\<Sum>i<?m. \<Sum>k<?n. c ! i * (ent A i k * ent B k j))"
    by (rule sum.swap)
  also have "\<dots> = (\<Sum>i<?m. c ! i * (\<Sum>k<?n. ent A i k * ent B k j))"
    by (simp add: sum_distrib_left)
  also have "(\<Sum>i<?m. c ! i * (\<Sum>k<?n. ent A i k * ent B k j)) mod 2
             = (\<Sum>i<?m. c ! i * ent (mmul A B) i j) mod 2"
  proof (rule sum_mod2_cong)
    fix i assume i: "i < ?m"
    have "ent (mmul A B) i j = (\<Sum>k<?n. ent A i k * ent B k j) mod 2"
      using assms i j by (rule ent_mmul_bin)
    then show "c ! i * (\<Sum>k<?n. ent A i k * ent B k j) mod 2 = c ! i * ent (mmul A B) i j mod 2"
      by (simp only: mod_mult_right_eq)
  qed
  also have "\<dots> = lincomb c (mmul A B) ! j"
    using j by (simp add: lincomb_nth)
  finally show "lincomb (lincomb c A) B ! j = lincomb c (mmul A B) ! j" .
qed simp

lemma lincomb_eye:
  assumes "c \<in> gf2_vectors n"
  shows "lincomb c (eye n) = c"
proof (rule gf2_eqI[of _ n])
  show "lincomb c (eye n) \<in> gf2_vectors n" using lincomb_gf2[of c "eye n"] by simp
  show "c \<in> gf2_vectors n" by fact
  fix j assume j: "j < n"
  have "(\<Sum>i<n. c ! i * ent (eye n) i j) = (\<Sum>i<n. if i = j then c ! i else 0)"
    by (rule sum.cong) (use j in auto)
  also have "\<dots> = c ! j" using j by (simp add: sum.delta)
  finally show "lincomb c (eye n) ! j = c ! j"
    using j gf2_nth[OF assms j] by (auto simp: lincomb_nth)
qed

lemma row_space_left_invertible:
  assumes "wf_mat L" "bin L" "nrows L = m" "ncols L = m"
    and "wf_mat Linv" "bin Linv" "nrows Linv = m" "ncols Linv = m"
    and "mmul L Linv = eye m" "bin M" "nrows M = m"
  shows "row_space (mmul L M) = row_space M"
proof -
  let ?V = "gf2_vectors m"
  let ?g = "\<lambda>c. lincomb c L"
  have gV: "?g ` ?V \<subseteq> ?V" using lincomb_gf2[of _ L] assms(4) by auto
  have inj: "inj_on ?g ?V"
  proof (rule inj_on_inverseI[of _ "\<lambda>v. lincomb v Linv"])
    fix c assume c: "c \<in> ?V"
    have "lincomb (lincomb c L) Linv = lincomb c (mmul L Linv)"
      using assms by (intro lincomb_assoc) simp_all
    then show "lincomb (lincomb c L) Linv = c" using assms(9) lincomb_eye[OF c] by simp
  qed
  have surj: "?g ` ?V = ?V"
    using finite_gf2_vectors gV inj by (rule endo_inj_surj)
  have assoc: "lincomb c (mmul L M) = lincomb (lincomb c L) M" for c
    using assms by (intro lincomb_assoc[symmetric]) simp_all
  have "row_space (mmul L M) = (\<lambda>c. lincomb (?g c) M) ` ?V"
    using assms(3) by (simp add: row_space_def assoc)
  also have "\<dots> = (\<lambda>c. lincomb c M) ` (?g ` ?V)" by (simp add: image_image)
  also have "\<dots> = row_space M" using surj assms(11) by (simp add: row_space_def)
  finally show ?thesis .
qed

lemma row_space_right_invertible:
  assumes "wf_mat R" "bin R" "nrows R = n" "ncols R = n"
    and "wf_mat Rinv" "bin Rinv" "nrows Rinv = n" "ncols Rinv = n"
    and "mmul Rinv R = eye n" "bin A" "ncols A = n"
  shows "card (row_space (mmul A R)) = card (row_space A)"
proof -
  let ?V = "gf2_vectors n"
  let ?h = "\<lambda>v. lincomb v R"
  have hV: "?h ` ?V \<subseteq> ?V" using lincomb_gf2[of _ R] assms(4) by auto
  have "?V \<subseteq> ?h ` ?V"
  proof
    fix w assume w: "w \<in> ?V"
    have "lincomb (lincomb w Rinv) R = lincomb w (mmul Rinv R)"
      using assms by (intro lincomb_assoc) simp_all
    then have "?h (lincomb w Rinv) = w" using assms(9) lincomb_eye[OF w] by simp
    moreover have "lincomb w Rinv \<in> ?V" using lincomb_gf2[of w Rinv] assms(8) by simp
    ultimately show "w \<in> ?h ` ?V" by (metis imageI)
  qed
  then have "?h ` ?V = ?V" using hV by auto
  then have inj: "inj_on ?h ?V"
    using finite_gf2_vectors by (intro eq_card_imp_inj_on) simp_all
  have sub: "row_space A \<subseteq> ?V"
    using lincomb_gf2[of _ A] assms(11) by (auto simp: row_space_def)
  have "row_space (mmul A R) = ?h ` row_space A"
  proof -
    have "lincomb c (mmul A R) = ?h (lincomb c A)" for c
      using assms by (intro lincomb_assoc[symmetric]) simp_all
    then show ?thesis by (simp add: row_space_def image_image)
  qed
  then show ?thesis using inj sub by (simp add: card_image inj_on_subset)
qed

lemma row_space_diagonal:
  assumes "r \<le> nrows S" "r \<le> ncols S"
    and "\<And>i j. i < nrows S \<Longrightarrow> j < ncols S \<Longrightarrow> ent S i j = (if i = j \<and> i < r then 1 else 0)"
  shows "card (row_space S) = 2 ^ r"
proof -
  let ?m = "nrows S" and ?n = "ncols S"
  let ?e = "\<lambda>u. u @ replicate (?n - r) (0::int)"
  have lc: "lincomb c S = ?e (take r c)" if c: "c \<in> gf2_vectors ?m" for c
  proof (rule nth_equalityI)
    show "length (lincomb c S) = length (?e (take r c))"
      using c assms(1,2) by (simp add: gf2_length)
  next
    fix j assume "j < length (lincomb c S)"
    then have j: "j < ?n" by simp
    have "(\<Sum>i<?m. c ! i * ent S i j) = (\<Sum>i<?m. if i = j then (if j < r then c ! j else 0) else 0)"
      by (rule sum.cong) (use j assms(3) in auto)
    also have "\<dots> = (if j < r then c ! j else 0)"
      using assms(1) by (auto simp: sum.delta)
    finally have "lincomb c S ! j = (if j < r then c ! j else 0) mod 2"
      using j by (simp add: lincomb_nth)
    moreover have "c ! j mod 2 = c ! j" if "j < r"
      using gf2_nth[OF c, of j] that assms(1) by auto
    moreover have "?e (take r c) ! j = (if j < r then c ! j else 0)"
      using j c assms(1) by (auto simp: nth_append gf2_length)
    ultimately show "lincomb c S ! j = ?e (take r c) ! j" by auto
  qed
  have "row_space S = ?e ` gf2_vectors r"
  proof (rule set_eqI, rule iffI)
    fix v assume "v \<in> row_space S"
    then obtain c where c: "c \<in> gf2_vectors ?m" "v = lincomb c S" by (auto simp: row_space_def)
    have "take r c \<in> gf2_vectors r"
      using c(1) assms(1) by (auto simp: gf2_vectors_def dest: in_set_takeD)
    then show "v \<in> ?e ` gf2_vectors r" using c lc by auto
  next
    fix v assume "v \<in> ?e ` gf2_vectors r"
    then obtain u where u: "u \<in> gf2_vectors r" "v = ?e u" by auto
    let ?c = "u @ replicate (?m - r) (0::int)"
    have c: "?c \<in> gf2_vectors ?m" using u(1) assms(1) by (auto simp: gf2_vectors_def)
    have "take r ?c = u" using u(1) by (simp add: gf2_length)
    then have "lincomb ?c S = v" using lc[OF c] u(2) by simp
    then show "v \<in> row_space S" using c unfolding row_space_def by blast
  qed
  moreover have "inj_on ?e (gf2_vectors r)" by (auto simp: inj_on_def)
  ultimately show ?thesis by (simp add: card_image card_gf2_vectors)
qed

lemma rank_gf2_eq: "card (row_space M) = 2 ^ r \<Longrightarrow> rank_gf2 M = r"
  unfolding rank_gf2_def by (rule the_equality) auto

lemma length_filter_less: "length (filter (\<lambda>i. i < r) [0..<k]) = min r k"
  by (induction k) auto

text \<open>
  C1. For every rectangular matrix \<open>M\<close> with entries 0 and 1, \<open>smith_normal_form_mod2\<close>
  returns \<open>L\<close>, \<open>R\<close>, \<open>S\<close>, \<open>Linv\<close> without an error; the product of \<open>L\<close>, \<open>M\<close> and
  \<open>R\<close> over the two-element field is \<open>S\<close>; \<open>S\<close> is diagonal with entries 0 and 1; the
  product of \<open>L\<close> and \<open>Linv\<close> is the identity; and the number of ones on the diagonal of
  \<open>S\<close> is the rank of \<open>M\<close>, the dimension of its row space.
\<close>

theorem smith_normal_form_mod2_correct:
  assumes "wf_mat M" and "is01 M"
  shows "\<exists>L R S Linv. smith_normal_form_mod2 M = Inr (L, R, S, Linv) \<and>
           matmulreduce [L, M, R] False = Inr S \<and>
           wf_mat S \<and> is01 S \<and> is_diagonal S \<and>
           logical_matmul L Linv = Inr (eye (nrows M)) \<and>
           diag_ones S = rank_gf2 M"
proof -
  have bM: "bin M" using assms by (simp add: is01_bin)
  from smith_normal_form_mod2_ok[OF assms(1) bM] obtain L R S Linv r where
    snf: "smith_normal_form_mod2 M = Inr (L, R, S, Linv)"
    and inv: "alg_inv M (L, R, S, Linv)"
    and r: "r \<le> min (nrows M) (ncols M)"
    and e: "\<forall>i<nrows M. \<forall>j<ncols M. ent S i j = (if i = j \<and> i < r then 1 else 0)"
    by blast
  note d = alg_invD[OF inv]
  have prod: "mmul (mmul L M) R = S" and linv: "mmul L Linv = eye (nrows M)"
    using inv by (simp_all add: alg_inv_def)
  obtain Rinv where Rinv: "wf_mat Rinv" "nrows Rinv = ncols M" "ncols Rinv = ncols M" "bin Rinv"
      "mmul Rinv R = eye (ncols M)"
    using inv by (auto simp: alg_inv_def)
  have 1: "matmulreduce [L, M, R] False = Inr S"
    using d assms(1) prod by (simp add: matmulreduce3)
  have 2: "is01 S" using d by (simp add: is01_bin)
  have 3: "is_diagonal S"
    using e d by (auto simp: is_diagonal_def list_all_iff)
  have 4: "logical_matmul L Linv = Inr (eye (nrows M))"
    using d linv by (simp add: logical_matmul_mmul)
  have "[i \<leftarrow> [0..<min (nrows S) (ncols S)]. ent S i i = 1]
        = [i \<leftarrow> [0..<min (nrows S) (ncols S)]. i < r]"
    by (rule filter_cong) (use e d in auto)
  then have 5: "diag_ones S = r"
    using r d by (simp add: diag_ones_def length_filter_less)
  have "card (row_space S) = 2 ^ r"
    using r d e by (intro row_space_diagonal) auto
  moreover have "card (row_space (mmul (mmul L M) R)) = card (row_space (mmul L M))"
    using d Rinv by (intro row_space_right_invertible[of R "ncols M" Rinv]) (simp_all add: bin_ops)
  moreover have "row_space (mmul L M) = row_space M"
    using d linv bM by (intro row_space_left_invertible[of L "nrows M" Linv]) simp_all
  ultimately have "card (row_space M) = 2 ^ r" using prod by simp
  then have 6: "rank_gf2 M = r" by (rule rank_gf2_eq)
  show ?thesis using snf 1 2 3 4 5 6 d(3) by simp
qed

theorem smith_normal_form_mod2_correct_witness:
  "wf_mat m3 \<and> is01 m3 \<and>
   (\<exists>L R S Linv. smith_normal_form_mod2 m3 = Inr (L, R, S, Linv) \<and>
           matmulreduce [L, m3, R] False = Inr S \<and>
           wf_mat S \<and> is01 S \<and> is_diagonal S \<and>
           logical_matmul L Linv = Inr (eye (nrows m3)) \<and>
           diag_ones S = rank_gf2 m3)"
proof -
  have a: "wf_mat m3" by (simp add: m3_def wf_mat_def)
  have b: "is01 m3" by (simp add: m3_def is01_def)
  show ?thesis using a b smith_normal_form_mod2_correct[OF a b] by blast
qed

section \<open>The reduced row echelon form\<close>

lemma rref_add_rows_ok:
  assumes "alg_inv M (L, R, S, Linv)" "s < nrows M" "\<forall>r\<in>set rs. r < nrows M \<and> r \<noteq> s"
  shows "\<exists>L' Linv'. rref_add_rows s rs (L, S, Linv)
            = Inr (L', fold (\<lambda>r. radd r s) rs S, Linv') \<and>
          alg_inv M (L', R, fold (\<lambda>r. radd r s) rs S, Linv')"
  using assms
proof (induction rs arbitrary: L S Linv)
  case Nil
  then show ?case by (simp add: rref_add_rows_def)
next
  case (Cons r rs)
  note d = alg_invD[OF Cons.prems(1)]
  have r: "r < nrows M" "r \<noteq> s" using Cons.prems(3) by simp_all
  have 1: "ar r s S L = Inr (radd r s S, radd r s L)"
    using d r Cons.prems(2) by (simp add: ar_ok)
  have 2: "add_to_column Linv s r = Inr (cadd s r Linv)"
    using d r Cons.prems(2) by (simp add: add_to_column_cadd)
  have inv: "alg_inv M (radd r s L, R, radd r s S, cadd s r Linv)"
    using Cons.prems r by (intro alg_inv_radd) simp_all
  from Cons.IH[OF inv Cons.prems(2)] Cons.prems(3)
  obtain L' Linv' where
    "rref_add_rows s rs (radd r s L, radd r s S, cadd s r Linv)
       = Inr (L', fold (\<lambda>r. radd r s) rs (radd r s S), Linv')"
    "alg_inv M (L', R, fold (\<lambda>r. radd r s) rs (radd r s S), Linv')"
    by auto
  then show ?case using 1 2
    by (simp add: rref_add_rows_def bind_e_def)
qed

lemma rref_body_ok:
  assumes inv: "alg_inv M (L, R, S, Linv)" and ri: "rref_inv s1 s2 ps S"
    and pv: "get_next_pivot S s1 (Some s2) = Some (rdx, cdx)"
  shows "\<exists>L' S' Linv'. rref_body s1 rdx cdx (L, S, Linv) = Inr (L', S', Linv') \<and>
           alg_inv M (L', R, S', Linv') \<and> rref_inv (Suc s1) (Suc cdx) (ps @ [cdx]) S'"
proof -
  note d = alg_invD[OF inv]
  let ?m = "nrows M" and ?n = "ncols M"
  have sc: "start_col s1 (Some s2) = s2" using ri by (auto simp: start_col_def rref_inv_def)
  from get_next_pivot_Some[OF pv]
  have p: "s1 \<le> rdx" "rdx < ?m" "s2 \<le> cdx" "cdx < ?n" "ent S rdx cdx \<noteq> 0"
    and pz: "\<And>c' r'. s2 \<le> c' \<Longrightarrow> c' < cdx \<Longrightarrow> s1 \<le> r' \<Longrightarrow> r' < ?m \<Longrightarrow> ent S r' c' = 0"
    using d sc by simp_all
  have s1: "s1 < ?m" using p by simp
  have I: "length ps = s1"
    "\<And>i. i < s1 \<Longrightarrow> ps ! i < s2" "\<And>i. i < s1 \<Longrightarrow> ent S i (ps ! i) = 1"
    "\<And>i j. i < s1 \<Longrightarrow> j < ps ! i \<Longrightarrow> ent S i j = 0"
    "\<And>i i'. i < s1 \<Longrightarrow> i' < ?m \<Longrightarrow> i' \<noteq> i \<Longrightarrow> ent S i' (ps ! i) = 0"
    "\<And>i i'. i < i' \<Longrightarrow> i' < s1 \<Longrightarrow> ps ! i < ps ! i'"
    "\<And>i j. s1 \<le> i \<Longrightarrow> i < ?m \<Longrightarrow> j < s2 \<Longrightarrow> ent S i j = 0"
    using ri d(9) unfolding rref_inv_def by auto
  define L1 where "L1 = rsw s1 rdx L"
  define S1 where "S1 = rsw s1 rdx S"
  define Linv1 where "Linv1 = csw rdx s1 Linv"
  have ph1: "(if rdx > s1
                then bind_e (sr s1 rdx S L) (\<lambda>(S', L').
                     bind_e (swap_columns rdx s1 [Linv]) (\<lambda>out.
                       case out of [] \<Rightarrow> Inl IndexError
                       | Linv' # _ \<Rightarrow> Inr (L', S', Linv')))
                else Inr (L, S, Linv)) = Inr (L1, S1, Linv1)"
  proof (cases "rdx > s1")
    case True
    then show ?thesis using d s1 p
      by (simp add: sr_ok swap_columns_single bind_e_def L1_def S1_def Linv1_def)
  next
    case False
    then have "rdx = s1" using p by simp
    then show ?thesis using d by (simp add: rsw_same csw_same L1_def S1_def Linv1_def)
  qed
  have inv1: "alg_inv M (L1, R, S1, Linv1)"
    unfolding L1_def S1_def Linv1_def using inv s1 p by (intro alg_inv_rsw) simp_all
  note d1 = alg_invD[OF inv1]
  define rws where "rws = [idx \<leftarrow> [0..<nrows S1]. idx \<noteq> s1 \<and> ent S1 idx cdx = 1]"
  define S2 where "S2 = fold (\<lambda>r. radd r s1) rws S1"
  have rws: "\<forall>r\<in>set rws. r < ?m \<and> r \<noteq> s1" "distinct rws" "s1 \<notin> set rws"
    using d1 by (auto simp: rws_def)
  from rref_add_rows_ok[OF inv1 s1 rws(1)] obtain L2 Linv2 where
    ph2: "rref_add_rows s1 rws (L1, S1, Linv1) = Inr (L2, S2, Linv2)"
    and inv2: "alg_inv M (L2, R, S2, Linv2)"
    unfolding S2_def by blast
  note d2 = alg_invD[OF inv2]
  have body: "rref_body s1 rdx cdx (L, S, Linv) = Inr (L2, S2, Linv2)"
    unfolding rref_body_def prod.case ph1
    by (simp add: bind_e_def ph2[unfolded rws_def])
  \<comment> \<open>entries\<close>
  have e1: "ent S1 a b = ent S (swp s1 rdx a) b" if "a < ?m" "b < ?n" for a b
    using that d by (simp add: S1_def)
  have low1: "ent S1 a b = ent S a b" if "a < s1" "b < ?n" for a b
    using e1[of a b] that s1 p by (simp add: swp_def)
  have z1: "ent S1 a b = 0" if "s1 \<le> a" "a < ?m" "b < cdx" for a b
  proof -
    have a': "s1 \<le> swp s1 rdx a" "swp s1 rdx a < ?m" using that p s1 by (auto simp: swp_def)
    have "ent S (swp s1 rdx a) b = 0"
    proof (cases "b < s2")
      case True
      then show ?thesis using I(7)[OF a'] by simp
    next
      case False
      then show ?thesis using pz[of b "swp s1 rdx a"] a' that by simp
    qed
    then show ?thesis using e1[of a b] that p by simp
  qed
  have pv1: "ent S1 s1 cdx = 1"
    using e1[OF s1 p(4)] p d binD[of S rdx cdx] by (simp add: swp_def)
  have b1: "ent S1 a b = 0 \<or> ent S1 a b = 1" if "a < ?m" "b < ?n" for a b
    using d1 that by (simp add: bin_def)
  have e2: "ent S2 a b = (if a \<in> set rws then lxor (ent S1 a b) (ent S1 s1 b) else ent S1 a b)"
    if "a < ?m" "b < ?n" for a b
    unfolding S2_def using that d1 s1 rws by (intro fold_radd_ent) simp_all
  have in_rws: "a \<in> set rws \<longleftrightarrow> a < ?m \<and> a \<noteq> s1 \<and> ent S1 a cdx = 1" for a
    using d1 by (auto simp: rws_def)
  have left2: "ent S2 a b = ent S1 a b" if "a < ?m" "b < cdx" for a b
  proof -
    have b: "b < ?n" using that p by simp
    have "ent S1 s1 b = 0" using z1[of s1 b] s1 that by simp
    then show ?thesis using e2[OF that(1) b] b1[OF that(1) b] by (auto simp: lxor_def)
  qed
  have col2: "ent S2 a cdx = (if a = s1 then 1 else 0)" if "a < ?m" for a
  proof (cases "a \<in> set rws")
    case True
    then show ?thesis using e2[OF that p(4)] pv1 in_rws[of a] by (simp add: lxor_def)
  next
    case False
    show ?thesis
    proof (cases "a = s1")
      case True
      then show ?thesis using e2[OF that p(4)] False pv1 by simp
    next
      case ne: False
      then have "ent S1 a cdx \<noteq> 1" using False in_rws[of a] that by simp
      then have "ent S1 a cdx = 0" using b1[OF that p(4)] by simp
      then show ?thesis using e2[OF that p(4)] False ne by simp
    qed
  qed
  have ps_lt: "ps ! i < cdx" if "i < s1" for i using I(2)[OF that] p by simp
  have "rref_inv (Suc s1) (Suc cdx) (ps @ [cdx]) S2"
    unfolding rref_inv_def
  proof (intro conjI allI impI)
    show "Suc s1 \<le> nrows S2" using d2 s1 by simp
    show "Suc cdx \<le> ncols S2" using d2 p by simp
    show "Suc s1 = 0" if "Suc cdx = 0" using that by simp
    show "length (ps @ [cdx]) = Suc s1" using I(1) by simp
  next
    fix i assume i: "i < Suc s1"
    show "(ps @ [cdx]) ! i < Suc cdx"
      using i I(1) ps_lt[of i] by (cases "i = s1") (auto simp: nth_append)
    show "ent S2 i ((ps @ [cdx]) ! i) = 1"
    proof (cases "i = s1")
      case True
      then show ?thesis using col2[OF s1] I(1) by (simp add: nth_append)
    next
      case False
      then have i': "i < s1" using i by simp
      then have "ent S2 i (ps ! i) = ent S i (ps ! i)"
        using left2[of i "ps ! i"] low1[of i "ps ! i"] ps_lt[OF i'] s1 p by simp
      then show ?thesis using I(3)[OF i'] I(1) i' by (simp add: nth_append)
    qed
  next
    fix i j assume i: "i < Suc s1" and j: "j < (ps @ [cdx]) ! i"
    show "ent S2 i j = 0"
    proof (cases "i = s1")
      case True
      then have "j < cdx" using j I(1) by (simp add: nth_append)
      then show ?thesis using left2[of s1 j] z1[of s1 j] s1 True by simp
    next
      case False
      then have i': "i < s1" using i by simp
      then have jj: "j < ps ! i" using j I(1) by (simp add: nth_append)
      then have "j < cdx" using ps_lt[OF i'] by simp
      then have "ent S2 i j = ent S i j"
        using left2[of i j] low1[of i j] i' s1 p by simp
      then show ?thesis using I(4)[OF i' jj] by simp
    qed
  next
    fix i i' assume i: "i < Suc s1" and i': "i' < nrows S2" and ne: "i' \<noteq> i"
    have i'm: "i' < ?m" using i' d2 by simp
    show "ent S2 i' ((ps @ [cdx]) ! i) = 0"
    proof (cases "i = s1")
      case True
      then show ?thesis using col2[OF i'm] ne I(1) by (simp add: nth_append)
    next
      case False
      then have il: "i < s1" using i by simp
      have c: "ps ! i < cdx" using ps_lt[OF il] .
      have "ent S2 i' (ps ! i) = ent S1 i' (ps ! i)" using left2[OF i'm c] .
      also have "\<dots> = 0"
      proof (cases "i' < s1")
        case True
        then show ?thesis using low1[of i' "ps ! i"] c p I(5)[OF il i'm ne] by simp
      next
        case False
        then show ?thesis using z1[of i' "ps ! i"] i'm c by simp
      qed
      finally show ?thesis using il I(1) by (simp add: nth_append)
    qed
  next
    fix i i' assume "i < i' \<and> i' < Suc s1"
    then have h: "i < i'" "i' < Suc s1" by simp_all
    show "(ps @ [cdx]) ! i < (ps @ [cdx]) ! i'"
    proof (cases "i' = s1")
      case True
      then show ?thesis using h I(1) ps_lt[of i] by (simp add: nth_append)
    next
      case False
      then show ?thesis using h I(1) I(6)[of i i'] by (simp add: nth_append)
    qed
  next
    fix i j assume "Suc s1 \<le> i \<and> i < nrows S2 \<and> j < Suc cdx"
    then have h: "Suc s1 \<le> i" "i < ?m" "j < Suc cdx" using d2 by simp_all
    show "ent S2 i j = 0"
    proof (cases "j = cdx")
      case True
      then show ?thesis using col2[OF h(2)] h(1) by simp
    next
      case False
      then have "j < cdx" using h by simp
      then show ?thesis using left2[of i j] z1[of i j] h by simp
    qed
  qed
  then show ?thesis using body inv2 by blast
qed

declare rref_loop.simps [simp del]

lemma rref_loop_ok:
  assumes "alg_inv M (L, R, S, Linv)" "rref_inv s1 s2 ps S"
  shows "\<exists>L' S' Linv' s1' s2' ps'.
           rref_loop (nrows M) (ncols M) s1 s2 (L, S, Linv) = Inr (L', S', Linv') \<and>
           alg_inv M (L', R, S', Linv') \<and> rref_inv s1' s2' ps' S' \<and>
           (\<forall>i j. s1' \<le> i \<and> i < nrows M \<and> j < ncols M \<longrightarrow> ent S' i j = 0)"
  using assms
proof (induction "nrows M - s1" arbitrary: s1 s2 ps L S Linv rule: less_induct)
  case less
  note d = alg_invD[OF less.prems(1)]
  have bounds: "s2 \<le> ncols M \<and> s1 \<le> nrows M"
    using less.prems(2) d by (simp add: rref_inv_def)
  have sc: "start_col s1 (Some s2) = s2"
    using less.prems(2) by (auto simp: start_col_def rref_inv_def)
  show ?case
  proof (cases "get_next_pivot S s1 (Some s2)")
    case None
    have z: "ent S i j = 0" if "s1 \<le> i" "i < nrows M" "j < ncols M" for i j
    proof (cases "j < s2")
      case True
      then show ?thesis using less.prems(2) that d unfolding rref_inv_def by auto
    next
      case False
      then show ?thesis using None that d sc by (simp add: get_next_pivot_None)
    qed
    have "rref_loop (nrows M) (ncols M) s1 s2 (L, S, Linv) = Inr (L, S, Linv)"
      by (subst rref_loop.simps) (simp add: bounds None)
    then show ?thesis using less.prems z by blast
  next
    case (Some p)
    obtain rdx cdx where p: "p = (rdx, cdx)" by (cases p)
    from get_next_pivot_Some[OF Some[unfolded p]] have s1: "s1 < nrows M" using d by simp
    from rref_body_ok[OF less.prems(1,2) Some[unfolded p]] obtain L1 S1 Linv1 where
      b: "rref_body s1 rdx cdx (L, S, Linv) = Inr (L1, S1, Linv1)"
      and inv1: "alg_inv M (L1, R, S1, Linv1)"
      and ri1: "rref_inv (Suc s1) (Suc cdx) (ps @ [cdx]) S1"
      by blast
    have "nrows M - Suc s1 < nrows M - s1" using s1 by simp
    from less.hyps[OF this inv1 ri1] obtain L' S' Linv' s1' s2' ps' where
      r: "rref_loop (nrows M) (ncols M) (Suc s1) (Suc cdx) (L1, S1, Linv1) = Inr (L', S', Linv')"
      "alg_inv M (L', R, S', Linv')" "rref_inv s1' s2' ps' S'"
      "\<forall>i j. s1' \<le> i \<and> i < nrows M \<and> j < ncols M \<longrightarrow> ent S' i j = 0"
      by blast
    have "rref_loop (nrows M) (ncols M) s1 s2 (L, S, Linv) = Inr (L', S', Linv')"
      by (subst rref_loop.simps) (simp add: bounds Some p b r(1))
    then show ?thesis using r by blast
  qed
qed

lemma pivot_col_Some:
  assumes "p < ncols S" "ent S i p \<noteq> 0" "\<And>j. j < p \<Longrightarrow> ent S i j = 0"
  shows "pivot_col S i = Some p"
  unfolding pivot_col_def find_Some_iff
  by (rule exI[of _ p]) (use assms in auto)

lemma pivot_col_None:
  assumes "\<And>j. j < ncols S \<Longrightarrow> ent S i j = 0"
  shows "pivot_col S i = None"
  unfolding pivot_col_def find_None_iff using assms by auto

lemma rref_inv_is_rref:
  assumes "rref_inv s1 s2 ps S"
    and "\<forall>i j. s1 \<le> i \<and> i < nrows S \<and> j < ncols S \<longrightarrow> ent S i j = 0"
  shows "is_rref S"
proof -
  have I: "s1 \<le> nrows S" "s2 \<le> ncols S"
    "\<And>i. i < s1 \<Longrightarrow> ps ! i < s2" "\<And>i. i < s1 \<Longrightarrow> ent S i (ps ! i) = 1"
    "\<And>i j. i < s1 \<Longrightarrow> j < ps ! i \<Longrightarrow> ent S i j = 0"
    "\<And>i i'. i < s1 \<Longrightarrow> i' < nrows S \<Longrightarrow> i' \<noteq> i \<Longrightarrow> ent S i' (ps ! i) = 0"
    "\<And>i i'. i < i' \<Longrightarrow> i' < s1 \<Longrightarrow> ps ! i < ps ! i'"
    using assms(1) unfolding rref_inv_def by auto
  have pc: "pivot_col S i = Some (ps ! i)" if "i < s1" for i
    using I(2) I(3)[OF that] I(4)[OF that] I(5)[OF that] by (intro pivot_col_Some) auto
  have pn: "pivot_col S i = None" if "s1 \<le> i" "i < nrows S" for i
    using assms(2) that by (intro pivot_col_None) auto
  show ?thesis
    unfolding is_rref_def list_all_iff
  proof
    fix i assume "i \<in> set [0..<nrows S]"
    then have i: "i < nrows S" by simp
    show "case pivot_col S i of None \<Rightarrow> True
          | Some p \<Rightarrow> (\<forall>i'\<in>set [0..<nrows S]. i' = i \<or> ent S i' p = 0) \<and>
                      (\<forall>i'\<in>set [0..<i]. case pivot_col S i' of None \<Rightarrow> False | Some p' \<Rightarrow> p' < p)"
    proof (cases "i < s1")
      case True
      have "\<forall>i'\<in>set [0..<i]. case pivot_col S i' of None \<Rightarrow> False | Some p' \<Rightarrow> p' < ps ! i"
      proof
        fix i' assume "i' \<in> set [0..<i]"
        then have "i' < i" by simp
        then show "case pivot_col S i' of None \<Rightarrow> False | Some p' \<Rightarrow> p' < ps ! i"
          using pc[of i'] True I(7)[of i' i] by simp
      qed
      moreover have "\<forall>i'\<in>set [0..<nrows S]. i' = i \<or> ent S i' (ps ! i) = 0"
      proof
        fix i' assume "i' \<in> set [0..<nrows S]"
        then have "i' < nrows S" by simp
        then show "i' = i \<or> ent S i' (ps ! i) = 0"
          using I(6)[OF True, of i'] by (cases "i' = i") simp_all
      qed
      ultimately show ?thesis using pc[OF True] by simp
    next
      case False
      then show ?thesis using pn[of i] i by simp
    qed
  qed
qed

lemma rref_inv_init: "rref_inv 0 0 [] M"
  by (simp add: rref_inv_def)

text \<open>
  C2. For every rectangular matrix \<open>M\<close> with entries 0 and 1,
  \<open>reduced_row_echelon_form_mod2\<close> returns \<open>L\<close>, \<open>S\<close>, \<open>Linv\<close> without an error; the product
  of \<open>L\<close> and \<open>M\<close> over the two-element field is \<open>S\<close>; the product of \<open>L\<close> and \<open>Linv\<close> is
  the identity; and \<open>S\<close> is in reduced row echelon form: the first nonzero entry of a row
  is the only nonzero entry of its column, and the rows above it have their first nonzero
  entries in columns further left, in increasing order.
\<close>

theorem reduced_row_echelon_form_mod2_correct:
  assumes "wf_mat M" and "is01 M"
  shows "\<exists>L S Linv. reduced_row_echelon_form_mod2 M = Inr (L, S, Linv) \<and>
           logical_matmul L M = Inr S \<and>
           logical_matmul L Linv = Inr (eye (nrows M)) \<and>
           wf_mat S \<and> is01 S \<and> is_rref S"
proof -
  have bM: "bin M" using assms by (simp add: is01_bin)
  from rref_loop_ok[OF alg_inv_init[OF assms(1) bM] rref_inv_init] obtain L S Linv s1 s2 ps where
    loop: "rref_loop (nrows M) (ncols M) 0 0 (eye (nrows M), M, eye (nrows M)) = Inr (L, S, Linv)"
    and inv: "alg_inv M (L, eye (ncols M), S, Linv)"
    and ri: "rref_inv s1 s2 ps S"
    and z: "\<forall>i j. s1 \<le> i \<and> i < nrows M \<and> j < ncols M \<longrightarrow> ent S i j = 0"
    by blast
  note d = alg_invD[OF inv]
  have "mmul (mmul L M) (eye (ncols M)) = S" and linv: "mmul L Linv = eye (nrows M)"
    using inv by (simp_all add: alg_inv_def)
  then have prod: "mmul L M = S"
    using mmul_eye_right[of "mmul L M"] by (simp add: bin_ops)
  have 0: "reduced_row_echelon_form_mod2 M = Inr (L, S, Linv)"
    using loop by (simp add: reduced_row_echelon_form_mod2_def Let_def)
  have 1: "logical_matmul L M = Inr S"
    using d assms(1) prod by (simp add: logical_matmul_mmul)
  have 2: "logical_matmul L Linv = Inr (eye (nrows M))"
    using d linv by (simp add: logical_matmul_mmul)
  have 3: "is01 S" using d by (simp add: is01_bin)
  have 4: "is_rref S" using ri z d by (intro rref_inv_is_rref[of s1 s2 ps]) simp_all
  show ?thesis using 0 1 2 3 4 d(3) by simp
qed

theorem reduced_row_echelon_form_mod2_correct_witness:
  "wf_mat m3 \<and> is01 m3 \<and>
   (\<exists>L S Linv. reduced_row_echelon_form_mod2 m3 = Inr (L, S, Linv) \<and>
           logical_matmul L m3 = Inr S \<and>
           logical_matmul L Linv = Inr (eye (nrows m3)) \<and>
           wf_mat S \<and> is01 S \<and> is_rref S)"
proof -
  have a: "wf_mat m3" by (simp add: m3_def wf_mat_def)
  have b: "is01 m3" by (simp add: m3_def is01_def)
  show ?thesis using a b reduced_row_echelon_form_mod2_correct[OF a b] by blast
qed

lemma is_rref_example:
  "is_rref \<lparr>nrows = 3, ncols = 4, rows = [[0, 1, 0, 1], [0, 0, 1, 1], [0, 0, 0, 0]]\<rparr>"
  by code_simp

lemma is_rref_not_eliminated:
  "\<not> is_rref \<lparr>nrows = 3, ncols = 4, rows = [[0, 1, 1, 1], [0, 0, 1, 1], [0, 0, 0, 0]]\<rparr>"
  by code_simp

lemma is_rref_not_increasing:
  "\<not> is_rref \<lparr>nrows = 3, ncols = 4, rows = [[0, 0, 1, 1], [0, 1, 0, 1], [0, 0, 0, 0]]\<rparr>"
  by code_simp

lemma is_rref_zero_row_above:
  "\<not> is_rref \<lparr>nrows = 3, ncols = 4, rows = [[0, 1, 0, 1], [0, 0, 0, 0], [0, 0, 1, 1]]\<rparr>"
  by code_simp

section \<open>Consecutive boundary matrices\<close>

lemma combinations_length: "ys \<in> set (combinations xs n) \<Longrightarrow> length ys = n"
  by (induction xs n arbitrary: ys rule: combinations.induct) auto

lemma combinations_short: "length xs < n \<Longrightarrow> combinations xs n = []"
  by (induction xs n rule: combinations.induct) auto

lemma combinations_all: "combinations xs (length xs) = [xs]"
  by (induction xs) (auto simp: combinations_short)

lemma combinations_mono: "set (combinations xs n) \<subseteq> set (combinations (x # xs) n)"
  by (cases n) auto

lemma combinations_distinct:
  "ys \<in> set (combinations xs n) \<Longrightarrow> distinct xs \<Longrightarrow> distinct ys \<and> set ys \<subseteq> set xs"
  by (induction xs n arbitrary: ys rule: combinations.induct) (auto, blast+)

lemma face_Cons_0: "face (x # xs) 0 = xs"
  by (simp add: face_def)

lemma face_Cons_Suc: "face (x # xs) (Suc i) = x # face xs i"
  by (simp add: face_def)

lemma combinations_face:
  "ys \<in> set (combinations xs (Suc n)) \<Longrightarrow> i < length ys \<Longrightarrow> face ys i \<in> set (combinations xs n)"
proof (induction xs arbitrary: ys n i)
  case Nil
  then show ?case by simp
next
  case (Cons x xs)
  from Cons.prems(1) consider
    (hd) ys' where "ys = x # ys'" "ys' \<in> set (combinations xs n)"
    | (tl) "ys \<in> set (combinations xs (Suc n))"
    by auto
  then show ?case
  proof cases
    case hd
    show ?thesis
    proof (cases i)
      case 0
      then show ?thesis using hd combinations_mono[of xs n x] by (auto simp: face_Cons_0)
    next
      case (Suc i')
      then have i': "i' < length ys'" using Cons.prems(2) hd by simp
      then obtain n' where n: "n = Suc n'" using combinations_length[OF hd(2)] by (cases n) auto
      have "face ys' i' \<in> set (combinations xs n')" using Cons.IH[of ys' n' i'] hd(2) i' n by simp
      then show ?thesis using hd Suc n by (simp add: face_Cons_Suc)
    qed
  next
    case tl
    then have "face ys i \<in> set (combinations xs n)" using Cons.IH Cons.prems(2) by blast
    then show ?thesis using combinations_mono[of xs n x] by auto
  qed
qed

lemma finite_chains: "finite (chains h n)"
  by (simp add: chains_def)

lemma kchain_fold:
  assumes "0 \<le> k + 1"
  shows "fold_e (\<lambda>e kchains.
                  if int (fcard e) = k + 1
                  then Inr (insert (sorted_list_of_fset e) kchains)
                  else if int (fcard e) > k + 1
                  then (if k + 1 < 0 then Inl ValueError
                        else Inr (kchains \<union>
                                  set (combinations (sorted_list_of_fset e) (nat (k + 1)))))
                  else Inr kchains)
               h acc = Inr (acc \<union> chains h (nat (k + 1)))"
proof (induction h arbitrary: acc)
  case Nil
  then show ?case by (simp add: chains_def)
next
  case (Cons e h)
  have len: "length (sorted_list_of_fset e) = fcard e"
    by (simp add: fcard.rep_eq sorted_list_of_fset.rep_eq)
  have one: "set (combinations (sorted_list_of_fset e) (nat (k + 1))) =
        (if int (fcard e) = k + 1 then {sorted_list_of_fset e}
         else if int (fcard e) > k + 1 then set (combinations (sorted_list_of_fset e) (nat (k + 1)))
         else {})"
  proof -
    have a: "int (fcard e) = k + 1 \<Longrightarrow> nat (k + 1) = length (sorted_list_of_fset e)"
      using len by simp
    have b: "\<not> int (fcard e) = k + 1 \<Longrightarrow> \<not> int (fcard e) > k + 1 \<Longrightarrow>
        length (sorted_list_of_fset e) < nat (k + 1)"
      using len assms by simp
    show ?thesis
      using a b by (auto simp: combinations_all combinations_short simp del: One_nat_def)
  qed
  have ch: "chains (e # h) (nat (k + 1)) =
      set (combinations (sorted_list_of_fset e) (nat (k + 1))) \<union> chains h (nat (k + 1))"
    by (simp add: chains_def)
  show ?case
    unfolding ch using assms
    by (subst one) (auto simp: Cons.IH)
qed

lemma kchainbasis_chains:
  assumes "0 \<le> k + 1"
  shows "kchainbasis h k = Inr (sorted_list_of_set (chains h (nat (k + 1))))"
  unfolding kchainbasis_def kchain_fold[OF assms] by (simp add: bind_e_def)

lemma chains_distinct: "c \<in> chains h n \<Longrightarrow> distinct c \<and> length c = n"
  unfolding chains_def
  using combinations_distinct combinations_length
  by (fastforce simp: sorted_list_of_fset.rep_eq)

lemma chains_face: "c \<in> chains h (Suc n) \<Longrightarrow> i < length c \<Longrightarrow> face c i \<in> chains h n"
  unfolding chains_def using combinations_face by fastforce

lemma set_entry_dims [simp]:
  "nrows (set_entry M r c v) = nrows M" "ncols (set_entry M r c v) = ncols M"
  by (simp_all add: set_entry_def)

lemma wf_set_entry:
  assumes "wf_mat M" "r < nrows M"
  shows "wf_mat (set_entry M r c v)"
proof -
  have "length x = ncols M" if "x \<in> set ((rows M)[r := (rows M ! r)[c := v]])" for x
  proof -
    from that have "x \<in> insert ((rows M ! r)[c := v]) (set (rows M))"
      using set_update_subset_insert by fast
    then show ?thesis using assms by (auto simp: wf_mat_def list_all_iff)
  qed
  then show ?thesis using assms by (simp add: wf_mat_def set_entry_def list_all_iff)
qed

lemma ent_set_entry:
  assumes "wf_mat M" "r < nrows M" "c < ncols M" "a < nrows M" "b < ncols M"
  shows "ent (set_entry M r c v) a b = (if a = r \<and> b = c then v else ent M a b)"
  using assms wf_mat_row_length[OF assms(1,2)]
  by (auto simp: ent_def set_entry_def wf_mat_def nth_list_update)

lemma index_of_distinct: "distinct xs \<Longrightarrow> i < length xs \<Longrightarrow> index_of xs (xs ! i) = Some i"
proof (induction xs arbitrary: i)
  case Nil
  then show ?case by simp
next
  case (Cons x xs)
  then show ?case by (cases i) auto
qed

lemma bk_cell_fold_ent:
  assumes "index_of kbasis cell = Some col"
    and "\<forall>idx\<in>set idxs. face cell idx \<in> set km1basis"
    and "wf_mat bk" "nrows bk = length km1basis" "ncols bk = length kbasis"
  shows "\<exists>bk'. fold_e (bk_cell_step km1basis kbasis cell) idxs bk = Inr bk' \<and> wf_mat bk' \<and>
           nrows bk' = nrows bk \<and> ncols bk' = ncols bk \<and>
           (\<forall>a<nrows bk. \<forall>b<ncols bk. ent bk' a b =
              (if b = col \<and> (\<exists>idx\<in>set idxs. index_of km1basis (face cell idx) = Some a)
               then 1 else ent bk a b))"
  using assms(2-)
proof (induction idxs arbitrary: bk)
  case Nil
  then show ?case by simp
next
  case (Cons i idxs)
  have col: "col < length kbasis" using index_of_Some_iff[OF assms(1)] by simp
  from Cons.prems(1) obtain row where row: "index_of km1basis (face cell i) = Some row"
    using index_of_None_iff[of km1basis "face cell i"] by (cases "index_of km1basis (face cell i)") auto
  then have rowlt: "row < length km1basis" using index_of_Some_iff by fast
  let ?bk1 = "set_entry bk row col 1"
  have step: "bk_cell_step km1basis kbasis cell i bk = Inr ?bk1"
    by (simp add: bk_cell_step_def row assms(1))
  have wf1: "wf_mat ?bk1" using Cons.prems rowlt by (simp add: wf_set_entry)
  from Cons.IH[of ?bk1] Cons.prems wf1
  obtain bk' where bk': "fold_e (bk_cell_step km1basis kbasis cell) idxs ?bk1 = Inr bk'"
    "wf_mat bk'" "nrows bk' = nrows bk" "ncols bk' = ncols bk"
    and e: "\<And>a b. a < nrows bk \<Longrightarrow> b < ncols bk \<Longrightarrow> ent bk' a b =
              (if b = col \<and> (\<exists>idx\<in>set idxs. index_of km1basis (face cell idx) = Some a)
               then 1 else ent ?bk1 a b)"
    by auto
  have "ent bk' a b =
          (if b = col \<and> (\<exists>idx\<in>set (i # idxs). index_of km1basis (face cell idx) = Some a)
           then 1 else ent bk a b)" if ab: "a < nrows bk" "b < ncols bk" for a b
    using e[OF ab] ent_set_entry[OF Cons.prems(2) _ _ ab, of row col 1] rowlt col Cons.prems(3,4) row
    by auto
  then show ?case using step bk' by simp
qed

lemma bk_fold_ent:
  assumes "set cs \<subseteq> set kbasis"
    and "\<forall>cell\<in>set cs. \<forall>idx<length cell. face cell idx \<in> set km1basis"
    and "wf_mat bk" "nrows bk = length km1basis" "ncols bk = length kbasis"
  shows "\<exists>bk'. fold_e (\<lambda>cell bk. fold_e (bk_cell_step km1basis kbasis cell) [0..<length cell] bk)
                  cs bk = Inr bk' \<and> wf_mat bk' \<and>
           nrows bk' = nrows bk \<and> ncols bk' = ncols bk \<and>
           (\<forall>a<nrows bk. \<forall>b<ncols bk. ent bk' a b =
              (if \<exists>cell\<in>set cs. index_of kbasis cell = Some b \<and>
                    (\<exists>idx<length cell. index_of km1basis (face cell idx) = Some a)
               then 1 else ent bk a b))"
  using assms
proof (induction cs arbitrary: bk)
  case Nil
  then show ?case by simp
next
  case (Cons cell cs)
  obtain col where col: "index_of kbasis cell = Some col"
    using Cons.prems(1) index_of_None_iff[of kbasis cell] by (cases "index_of kbasis cell") auto
  have "\<forall>idx\<in>set [0..<length cell]. face cell idx \<in> set km1basis"
    using Cons.prems(2) by simp
  from bk_cell_fold_ent[OF col this Cons.prems(3,4,5)]
  obtain bk1 where bk1: "fold_e (bk_cell_step km1basis kbasis cell) [0..<length cell] bk = Inr bk1"
    "wf_mat bk1" "nrows bk1 = nrows bk" "ncols bk1 = ncols bk"
    and e1r: "\<forall>a<nrows bk. \<forall>b<ncols bk. ent bk1 a b =
              (if b = col \<and> (\<exists>idx\<in>set [0..<length cell]. index_of km1basis (face cell idx) = Some a)
               then 1 else ent bk a b)"
    by blast
  have e1: "ent bk1 a b =
              (if b = col \<and> (\<exists>idx<length cell. index_of km1basis (face cell idx) = Some a)
               then 1 else ent bk a b)" if "a < nrows bk" "b < ncols bk" for a b
    using e1r that by auto
  have "\<exists>bk'. fold_e (\<lambda>cell bk. fold_e (bk_cell_step km1basis kbasis cell) [0..<length cell] bk)
                  cs bk1 = Inr bk' \<and> wf_mat bk' \<and>
           nrows bk' = nrows bk1 \<and> ncols bk' = ncols bk1 \<and>
           (\<forall>a<nrows bk1. \<forall>b<ncols bk1. ent bk' a b =
              (if \<exists>cell\<in>set cs. index_of kbasis cell = Some b \<and>
                    (\<exists>idx<length cell. index_of km1basis (face cell idx) = Some a)
               then 1 else ent bk1 a b))"
    by (rule Cons.IH) (use Cons.prems bk1 in auto)
  then obtain bk' where bk': "fold_e (\<lambda>cell bk. fold_e (bk_cell_step km1basis kbasis cell) [0..<length cell] bk)
                  cs bk1 = Inr bk'" "wf_mat bk'" "nrows bk' = nrows bk" "ncols bk' = ncols bk"
    and e2: "\<And>a b. a < nrows bk \<Longrightarrow> b < ncols bk \<Longrightarrow> ent bk' a b =
              (if \<exists>cell\<in>set cs. index_of kbasis cell = Some b \<and>
                    (\<exists>idx<length cell. index_of km1basis (face cell idx) = Some a)
               then 1 else ent bk1 a b)"
    using bk1(3,4) by auto
  have "ent bk' a b =
              (if \<exists>c\<in>set (cell # cs). index_of kbasis c = Some b \<and>
                    (\<exists>idx<length c. index_of km1basis (face c idx) = Some a)
               then 1 else ent bk a b)" if ab: "a < nrows bk" "b < ncols bk" for a b
    using e2[OF ab] e1[OF ab] col by auto
  then show ?case using bk1(1) bk' by simp
qed

lemma bkMatrix_boundary_matrix:
  assumes "distinct km1basis" "distinct kbasis"
    and "\<forall>cell\<in>set kbasis. \<forall>idx<length cell. face cell idx \<in> set km1basis"
  shows "bkMatrix km1basis kbasis = Inr (boundary_matrix km1basis kbasis)"
proof -
  let ?z = "zeros (length km1basis) (length kbasis)"
  have "\<exists>bk'. fold_e (\<lambda>cell bk. fold_e (bk_cell_step km1basis kbasis cell) [0..<length cell] bk)
                  kbasis ?z = Inr bk' \<and> wf_mat bk' \<and>
           nrows bk' = nrows ?z \<and> ncols bk' = ncols ?z \<and>
           (\<forall>a<nrows ?z. \<forall>b<ncols ?z. ent bk' a b =
              (if \<exists>cell\<in>set kbasis. index_of kbasis cell = Some b \<and>
                    (\<exists>idx<length cell. index_of km1basis (face cell idx) = Some a)
               then 1 else ent ?z a b))"
    by (rule bk_fold_ent) (use assms(3) in \<open>simp_all add: zeros_def\<close>)
  then obtain B where B: "bkMatrix km1basis kbasis = Inr B" "wf_mat B"
    "nrows B = length km1basis" "ncols B = length kbasis"
    and e: "\<And>a b. a < length km1basis \<Longrightarrow> b < length kbasis \<Longrightarrow> ent B a b =
              (if \<exists>cell\<in>set kbasis. index_of kbasis cell = Some b \<and>
                    (\<exists>idx<length cell. index_of km1basis (face cell idx) = Some a)
               then 1 else 0)"
    unfolding bkMatrix_alt by (auto simp: zeros_def)
  have "B = boundary_matrix km1basis kbasis"
  proof (rule mat_eqI)
    fix a b assume "a < nrows B" "b < ncols B"
    then have ab: "a < length km1basis" "b < length kbasis" using B by simp_all
    have "(\<exists>cell\<in>set kbasis. index_of kbasis cell = Some b \<and>
                    (\<exists>idx<length cell. index_of km1basis (face cell idx) = Some a))
          \<longleftrightarrow> (\<exists>idx<length (kbasis ! b). face (kbasis ! b) idx = km1basis ! a)" (is "?l \<longleftrightarrow> ?r")
    proof
      assume ?l
      then obtain cell idx where c: "index_of kbasis cell = Some b" "idx < length cell"
        "index_of km1basis (face cell idx) = Some a" by auto
      have "kbasis ! b = cell" using index_of_Some_iff[OF c(1)] by simp
      moreover have "km1basis ! a = face cell idx" using index_of_Some_iff[OF c(3)] by simp
      ultimately show ?r using c(2) by auto
    next
      assume ?r
      then obtain idx where i: "idx < length (kbasis ! b)" "face (kbasis ! b) idx = km1basis ! a"
        by auto
      have "index_of kbasis (kbasis ! b) = Some b" using index_of_distinct[OF assms(2) ab(2)] .
      moreover have "index_of km1basis (face (kbasis ! b) idx) = Some a"
        using index_of_distinct[OF assms(1) ab(1)] i(2) by simp
      ultimately show ?l using ab(2) i(1) by (intro bexI[of _ "kbasis ! b"]) auto
    qed
    then show "ent B a b = ent (boundary_matrix km1basis kbasis) a b"
      using e[OF ab] ab by (simp add: boundary_matrix_def)
  qed (use B in \<open>simp_all add: boundary_matrix_def\<close>)
  then show ?thesis using B(1) by simp
qed

lemma face_remove1: "distinct zs \<Longrightarrow> j < length zs \<Longrightarrow> face zs j = remove1 (zs ! j) zs"
proof (induction zs arbitrary: j)
  case Nil
  then show ?case by simp
next
  case (Cons x xs)
  show ?case
  proof (cases j)
    case 0
    then show ?thesis by (simp add: face_Cons_0)
  next
    case (Suc j')
    then have "xs ! j' \<in> set xs" using Cons.prems by simp
    then have "x \<noteq> xs ! j'" using Cons.prems(1) by auto
    then show ?thesis using Suc Cons by (simp add: face_Cons_Suc)
  qed
qed

lemma is_face_remove1:
  assumes "distinct zs"
  shows "(\<exists>j<length zs. face zs j = m) \<longleftrightarrow> (\<exists>v\<in>set zs. remove1 v zs = m)"
proof
  assume "\<exists>j<length zs. face zs j = m"
  then obtain j where "j < length zs" "face zs j = m" by auto
  then show "\<exists>v\<in>set zs. remove1 v zs = m"
    using face_remove1[OF assms, of j] by (intro bexI[of _ "zs ! j"]) auto
next
  assume "\<exists>v\<in>set zs. remove1 v zs = m"
  then obtain v where v: "v \<in> set zs" "remove1 v zs = m" by auto
  then obtain j where "j < length zs" "zs ! j = v" by (auto simp: in_set_conv_nth)
  then show "\<exists>j<length zs. face zs j = m"
    using face_remove1[OF assms, of j] v by auto
qed

lemma even_faces_of_faces:
  assumes "distinct zs"
  shows "even (card {v \<in> set zs. \<exists>u\<in>set (remove1 v zs). remove1 u (remove1 v zs) = r})"
proof (cases "{v \<in> set zs. \<exists>u\<in>set (remove1 v zs). remove1 u (remove1 v zs) = r} = {}")
  case True
  show ?thesis unfolding True by simp
next
  case False
  let ?V = "{v \<in> set zs. \<exists>u\<in>set (remove1 v zs). remove1 u (remove1 v zs) = r}"
  have s1: "set (remove1 v zs) = set zs - {v}" for v using assms by simp
  have s2: "set (remove1 u (remove1 v zs)) = set zs - {u, v}" for u v
    using assms by (auto simp: distinct_remove1)
  from False obtain v0 u0 where v0: "v0 \<in> set zs" "u0 \<in> set zs" "u0 \<noteq> v0"
    and r: "remove1 u0 (remove1 v0 zs) = r"
    by (auto simp: s1)
  have sr: "set r = set zs - {u0, v0}" using s2[of u0 v0] r by simp
  have "?V = {u0, v0}"
  proof (intro equalityI subsetI)
    fix v assume "v \<in> ?V"
    then obtain u where v: "v \<in> set zs" "u \<in> set zs" "u \<noteq> v" "remove1 u (remove1 v zs) = r"
      by (auto simp: s1)
    then have "set r = set zs - {u, v}" using s2[of u v] by simp
    then have "v \<notin> set r" by simp
    then show "v \<in> {u0, v0}" using sr v(1) by auto
  next
    fix v assume "v \<in> {u0, v0}"
    then consider "v = v0" | "v = u0" by auto
    then show "v \<in> ?V"
    proof cases
      case 1
      then show ?thesis using v0 r by (auto simp: s1)
    next
      case 2
      have "remove1 v0 (remove1 u0 zs) = r" using r by (simp add: remove1_commute)
      then show ?thesis using 2 v0 by (auto simp: s1)
    qed
  qed
  then show ?thesis using v0(3) by simp
qed

lemma inj_on_remove1: "distinct zs \<Longrightarrow> inj_on (\<lambda>v. remove1 v zs) (set zs)"
proof (rule inj_onI)
  fix x y assume d: "distinct zs" and x: "x \<in> set zs" and y: "y \<in> set zs"
    and e: "remove1 x zs = remove1 y zs"
  have "set zs - {x} = set zs - {y}" using arg_cong[OF e, of set] d by simp
  then show "x = y" using x y by auto
qed

lemma even_chains_between:
  assumes dk: "distinct Ck" and dz: "distinct zs"
    and fz: "\<forall>j<length zs. face zs j \<in> set Ck"
    and dm: "\<forall>m\<in>set Ck. distinct m"
  shows "even (card {k. k < length Ck \<and> (\<exists>i<length (Ck ! k). face (Ck ! k) i = r) \<and>
                        (\<exists>j<length zs. face zs j = Ck ! k)})"
proof -
  let ?K = "{k. k < length Ck \<and> (\<exists>i<length (Ck ! k). face (Ck ! k) i = r) \<and>
                        (\<exists>j<length zs. face zs j = Ck ! k)}"
  let ?M = "{m. (\<exists>v\<in>set zs. remove1 v zs = m) \<and> (\<exists>u\<in>set m. remove1 u m = r)}"
  let ?V = "{v \<in> set zs. \<exists>u\<in>set (remove1 v zs). remove1 u (remove1 v zs) = r}"
  have inj: "inj_on ((!) Ck) ?K"
    by (rule inj_onI) (simp add: nth_eq_iff_index_eq[OF dk])
  have img: "(!) Ck ` ?K = ?M"
  proof (intro equalityI subsetI)
    fix m assume "m \<in> (!) Ck ` ?K"
    then obtain k where k: "k < length Ck" "m = Ck ! k" "\<exists>i<length m. face m i = r"
      "\<exists>j<length zs. face zs j = m" by auto
    have "distinct m" using k(1,2) dm by simp
    then show "m \<in> ?M" using k(3,4) is_face_remove1[OF dz, of m] is_face_remove1[of m r] by simp
  next
    fix m assume "m \<in> ?M"
    then have m: "\<exists>v\<in>set zs. remove1 v zs = m" "\<exists>u\<in>set m. remove1 u m = r" by auto
    then have fm: "\<exists>j<length zs. face zs j = m" using is_face_remove1[OF dz, of m] by simp
    then have "m \<in> set Ck" using fz by auto
    then obtain k where k: "k < length Ck" "Ck ! k = m" by (auto simp: in_set_conv_nth)
    have "distinct m" using \<open>m \<in> set Ck\<close> dm by simp
    then have "\<exists>i<length m. face m i = r" using m(2) is_face_remove1[of m r] by simp
    then have "k \<in> ?K" using k fm by simp
    then show "m \<in> (!) Ck ` ?K" using k(2) by (metis (no_types, lifting) imageI)
  qed
  have img2: "(\<lambda>v. remove1 v zs) ` ?V = ?M"
  proof (intro equalityI subsetI)
    fix m assume "m \<in> (\<lambda>v. remove1 v zs) ` ?V"
    then obtain v where "v \<in> ?V" "m = remove1 v zs" by (rule imageE)
    then show "m \<in> ?M" by blast
  next
    fix m assume "m \<in> ?M"
    then obtain v where v: "v \<in> set zs" "remove1 v zs = m" and u: "\<exists>u\<in>set m. remove1 u m = r"
      by blast
    have "v \<in> ?V" using v u by simp
    then show "m \<in> (\<lambda>v. remove1 v zs) ` ?V" using v(2) by (metis (no_types, lifting) imageI)
  qed
  have inj2: "inj_on (\<lambda>v. remove1 v zs) ?V"
    by (rule inj_on_subset[OF inj_on_remove1[OF dz]]) auto
  have "card ?K = card ?M" using card_image[OF inj] img by simp
  also have "\<dots> = card ?V" using card_image[OF inj2] img2 by simp
  finally show ?thesis using even_faces_of_faces[OF dz, of r] by simp
qed

lemma mmul_boundary_matrix:
  assumes dk: "distinct Ck"
    and dm: "\<forall>m\<in>set Ck. distinct m"
    and fz: "\<forall>zs\<in>set Ckp1. distinct zs \<and> (\<forall>j<length zs. face zs j \<in> set Ck)"
  shows "mmul (boundary_matrix Ckm1 Ck) (boundary_matrix Ck Ckp1)
           = zeros (length Ckm1) (length Ckp1)"
proof (rule mat_eqI)
  fix a c
  assume "a < nrows (mmul (boundary_matrix Ckm1 Ck) (boundary_matrix Ck Ckp1))"
    and "c < ncols (mmul (boundary_matrix Ckm1 Ck) (boundary_matrix Ck Ckp1))"
  then have ac: "a < length Ckm1" "c < length Ckp1"
    by (simp_all add: mmul_def boundary_matrix_def)
  have par: "int n mod 2 = 0" if "even n" for n :: nat using that by presburger
  let ?r = "Ckm1 ! a" and ?zs = "Ckp1 ! c"
  let ?PQ = "\<lambda>k. (\<exists>i<length (Ck ! k). face (Ck ! k) i = ?r) \<and> (\<exists>j<length ?zs. face ?zs j = Ck ! k)"
  have z: "distinct ?zs" "\<forall>j<length ?zs. face ?zs j \<in> set Ck" using fz ac(2) by simp_all
  have t: "tb (ent (boundary_matrix Ckm1 Ck) a k) * tb (ent (boundary_matrix Ck Ckp1) k c)
        = (if ?PQ k then 1 else 0)" if "k < length Ck" for k
    using that ac by (simp add: boundary_matrix_def tb_def)
  have "(\<Sum>k<length Ck. tb (ent (boundary_matrix Ckm1 Ck) a k) * tb (ent (boundary_matrix Ck Ckp1) k c))
        = (\<Sum>k<length Ck. if ?PQ k then 1 else 0)"
    by (rule sum.cong) (use t in auto)
  also have "\<dots> = int (card {k. k < length Ck \<and> ?PQ k})"
  proof -
    have "{..<length Ck} \<inter> {k. ?PQ k} = {k. k < length Ck \<and> ?PQ k}" by auto
    then show ?thesis by (simp add: sum.If_cases)
  qed
  finally have "gdot (length Ck) (ent (boundary_matrix Ckm1 Ck) a) (\<lambda>k. ent (boundary_matrix Ck Ckp1) k c)
        = int (card {k. k < length Ck \<and> ?PQ k}) mod 2"
    by (simp add: gdot_def)
  also have "\<dots> = 0"
    by (rule par[OF even_chains_between[OF dk z dm, of ?r]])
  finally show "ent (mmul (boundary_matrix Ckm1 Ck) (boundary_matrix Ck Ckp1)) a c
        = ent (zeros (length Ckm1) (length Ckp1)) a c"
    using ac by (simp add: mmul_def zeros_def boundary_matrix_def)
qed (simp_all add: mmul_def zeros_def boundary_matrix_def)

lemma wf_boundary_matrix [simp]: "wf_mat (boundary_matrix A B)"
  by (simp add: boundary_matrix_def)

lemma logical_matmul_boundary_matrices:
  fixes h :: "('a::linorder) hypergraph"
  assumes C0: "C0 = sorted_list_of_set (chains h n)"
    and C1: "C1 = sorted_list_of_set (chains h (Suc n))"
    and C2: "C2 = sorted_list_of_set (chains h (Suc (Suc n)))"
  shows "bkMatrix C0 C1 = Inr (boundary_matrix C0 C1)"
    and "bkMatrix C1 C2 = Inr (boundary_matrix C1 C2)"
    and "logical_matmul (boundary_matrix C0 C1) (boundary_matrix C1 C2)
           = Inr (zeros (length C0) (length C2))"
proof -
  have s: "set C0 = chains h n" "set C1 = chains h (Suc n)" "set C2 = chains h (Suc (Suc n))"
    using C0 C1 C2 by (simp_all add: finite_chains)
  have d: "distinct C0" "distinct C1" "distinct C2" using C0 C1 C2 by simp_all
  have f1: "\<forall>cell\<in>set C1. \<forall>idx<length cell. face cell idx \<in> set C0"
    unfolding s using chains_face by blast
  have f2: "\<forall>cell\<in>set C2. \<forall>idx<length cell. face cell idx \<in> set C1"
    unfolding s using chains_face by blast
  show "bkMatrix C0 C1 = Inr (boundary_matrix C0 C1)"
    by (rule bkMatrix_boundary_matrix[OF d(1,2) f1])
  show "bkMatrix C1 C2 = Inr (boundary_matrix C1 C2)"
    by (rule bkMatrix_boundary_matrix[OF d(2,3) f2])
  have dm: "\<forall>m\<in>set C1. distinct m" unfolding s using chains_distinct by blast
  have fz: "\<forall>zs\<in>set C2. distinct zs \<and> (\<forall>j<length zs. face zs j \<in> set C1)"
    using f2 chains_distinct unfolding s by blast
  have "logical_matmul (boundary_matrix C0 C1) (boundary_matrix C1 C2)
          = Inr (mmul (boundary_matrix C0 C1) (boundary_matrix C1 C2))"
    by (rule logical_matmul_mmul) (simp_all add: boundary_matrix_def)
  then show "logical_matmul (boundary_matrix C0 C1) (boundary_matrix C1 C2)
           = Inr (zeros (length C0) (length C2))"
    by (simp only: mmul_boundary_matrix[OF d(2) dm fz])
qed

text \<open>
  C5. For every hypergraph and every \<open>k \<ge> 1\<close> the three chain bases of dimensions
  \<open>k - 1\<close>, \<open>k\<close> and \<open>k + 1\<close> are computed, both boundary matrices are built (no face
  is missing), and their product over the two-element field is the zero matrix.
\<close>

theorem boundary_matrices_compose_to_zero:
  fixes h :: "('a::linorder) hypergraph"
  assumes "1 \<le> k"
  shows "\<exists>Ckm1 Ck Ckp1 B1 B2.
           kchainbasis h (k - 1) = Inr Ckm1 \<and> kchainbasis h k = Inr Ck \<and>
           kchainbasis h (k + 1) = Inr Ckp1 \<and>
           bkMatrix Ckm1 Ck = Inr B1 \<and> bkMatrix Ck Ckp1 = Inr B2 \<and>
           logical_matmul B1 B2 = Inr (zeros (length Ckm1) (length Ckp1))"
proof -
  define n where "n = nat k"
  define C0 where "C0 = sorted_list_of_set (chains h n)"
  define C1 where "C1 = sorted_list_of_set (chains h (Suc n))"
  define C2 where "C2 = sorted_list_of_set (chains h (Suc (Suc n)))"
  have n: "nat (k - 1 + 1) = n" "nat (k + 1) = Suc n" "nat (k + 1 + 1) = Suc (Suc n)"
    using assms by (simp_all add: n_def nat_add_distrib)
  have "kchainbasis h (k - 1) = Inr C0"
    using kchainbasis_chains[of "k - 1" h] assms n(1) by (simp add: C0_def)
  moreover have "kchainbasis h k = Inr C1"
    using kchainbasis_chains[of k h] assms n(2) by (simp add: C1_def)
  moreover have "kchainbasis h (k + 1) = Inr C2"
    using kchainbasis_chains[of "k + 1" h] assms n(3) by (simp add: C2_def)
  ultimately show ?thesis
    using logical_matmul_boundary_matrices[OF C0_def C1_def C2_def] by blast
qed

theorem boundary_matrices_compose_to_zero_witness:
  "(1::int) \<le> 1 \<and>
   (\<exists>Ckm1 Ck Ckp1 B1 B2.
      kchainbasis triangle 0 = Inr Ckm1 \<and> kchainbasis triangle 1 = Inr Ck \<and>
      kchainbasis triangle 2 = Inr Ckp1 \<and>
      bkMatrix Ckm1 Ck = Inr B1 \<and> bkMatrix Ck Ckp1 = Inr B2 \<and>
      logical_matmul B1 B2 = Inr (zeros (length Ckm1) (length Ckp1)))"
  using boundary_matrices_compose_to_zero[of 1 triangle] by simp

lemma boundary_matrices_triangle:
  "logical_matmul \<lparr>nrows = 3, ncols = 3, rows = [[1, 1, 0], [1, 0, 1], [0, 1, 1]]\<rparr>
     \<lparr>nrows = 3, ncols = 1, rows = [[1], [1], [1]]\<rparr>
     = Inr \<lparr>nrows = 3, ncols = 1, rows = [[0], [0], [0]]\<rparr> \<and>
   zeros 3 1 = \<lparr>nrows = 3, ncols = 1, rows = [[0], [0], [0]]\<rparr>"
  by code_simp

end
